theory Spec2Isabelle
  imports Main
begin

section \<open>The engine's link systems and chunk generator (engine/linksystem.go)\<close>

subsection \<open>Data\<close>

text \<open>
  Go byte slices are lists of 8-bit characters. A content identifier is used only through
  its string form \<^verbatim>\<open>c.String()\<close>, wrapped by \<^verbatim>\<open>datastore.NewKey\<close>, which is
  injective on these strings; the model keys every store by that string.
\<close>

type_synonym bytes = string
type_synonym multihash = bytes
type_synonym cid = string

text \<open>
  Go errors. \<open>EOF\<close> is \<^verbatim>\<open>io.EOF\<close>, \<open>ErrNotFound\<close> is \<^verbatim>\<open>datastore.ErrNotFound\<close>,
  \<open>ErrNoCallback\<close> is \<^verbatim>\<open>provider.ErrNoCallback\<close>; \<open>Panic\<close> stands for a run-time
  panic; \<open>ErrOther\<close> is any other error value.
\<close>

datatype error = EOF | ErrNotFound | ErrNoCallback | Panic | ErrOther string

text \<open>
  A value of type \<^verbatim>\<open>[]byte\<close> as a store returns it: the source tests both
  \<^verbatim>\<open>b == nil\<close> and \<^verbatim>\<open>len(val) == 0\<close>, and a non-nil slice can be empty.
\<close>

datatype slice = GoNil | GoBytes bytes

fun len :: "slice \<Rightarrow> nat" where
  "len GoNil = 0"
| "len (GoBytes b) = length b"

fun contents_of :: "slice \<Rightarrow> bytes" where
  "contents_of GoNil = []"
| "contents_of (GoBytes b) = b"

text \<open>
  \<^verbatim>\<open>buf.Bytes()\<close> of a buffer made by \<^verbatim>\<open>bytes.NewBuffer(nil)\<close>: nil as long as
  nothing was written.
\<close>

definition bufBytes :: "bytes \<Rightarrow> slice" where
  "bufBytes b = (if b = [] then GoNil else GoBytes b)"

text \<open>
  The generic, schema-less node that \<^verbatim>\<open>decodeIPLDNode\<close> builds with
  \<^verbatim>\<open>basicnode.Prototype.Any\<close>: the kinds of the IPLD data model (the value of a float
  is not modelled). \<open>LookupByString\<close> is that library's lookup: on a map, the node stored
  under the key, which for a null value is the null node, itself a node; Go's nil (here
  \<open>None\<close>, returned with an error the caller drops) when the key is missing or the node
  is not a map.
\<close>

datatype Node =
    NNull
  | NBool bool
  | NInt int
  | NFloat
  | NString string
  | NBytes bytes
  | NList "Node list"
  | NMap "(string \<times> Node) list"
  | NLink cid

fun LookupByString :: "Node \<Rightarrow> string \<Rightarrow> Node option" where
  "LookupByString (NMap kvs) key = map_of kvs key"
| "LookupByString _ key = None"

text \<open>\<^verbatim>\<open>schema.EntryChunk\<close>: the multihashes of a chunk and the link to the chunk written before it.\<close>

datatype EntryChunk = EntryChunk (Entries: "multihash list") (Next: "cid option")

subsection \<open>The bounded chunk cache\<close>

text \<open>
  Modelled from the spec: \<^verbatim>\<open>lrustore.LRUStore\<close> (engine/lrustore), which the source
  only calls. Sections 2, 3 and 4.4: an in-memory, capacity-bounded, least-recently-used
  key/value store keyed by content identifier, with a current length and a capacity. The
  entries are kept most recently used first.
\<close>

record LRUStore =
  entries :: "(cid \<times> slice) list"
  capacity :: nat

text \<open>Modelled from the spec: \<open>Len()\<close> and \<open>Cap()\<close>, the current length and the capacity.\<close>

definition Len :: "LRUStore \<Rightarrow> nat" where
  "Len ls = length (entries ls)"

definition Cap :: "LRUStore \<Rightarrow> nat" where
  "Cap ls = capacity ls"

text \<open>
  Modelled from the spec: \<open>Resize(newCap)\<close>. To a smaller capacity it evicts
  least-recently-used entries until \<open>Len \<le> newCap\<close>; to a larger one it never evicts.
\<close>

definition Resize :: "LRUStore \<Rightarrow> nat \<Rightarrow> LRUStore" where
  "Resize ls newCap = ls\<lparr>entries := take newCap (entries ls), capacity := newCap\<rparr>"

text \<open>
  Modelled from the spec: \<open>Get(id)\<close>, the bytes or \<open>NotFound\<close>; a hit makes the entry the
  most recently used.
\<close>

definition lruGet :: "LRUStore \<Rightarrow> cid \<Rightarrow> (error + slice) \<times> LRUStore" where
  "lruGet ls k =
     (case map_of (entries ls) k of
        None \<Rightarrow> (Inl ErrNotFound, ls)
      | Some v \<Rightarrow> (Inr v, ls\<lparr>entries := (k, v) # filter (\<lambda>p. fst p \<noteq> k) (entries ls)\<rparr>))"

text \<open>
  Modelled from the spec: \<open>Put(id, bytes)\<close>. The entry becomes the most recently used, in
  place of an older entry under the same key; beyond the capacity the least recently used
  entries are evicted.
\<close>

definition lruPut :: "LRUStore \<Rightarrow> cid \<Rightarrow> slice \<Rightarrow> LRUStore" where
  "lruPut ls k v =
     ls\<lparr>entries := take (capacity ls) ((k, v) # filter (\<lambda>p. fst p \<noteq> k) (entries ls))\<rparr>"

text \<open>
  The engine's cache is a \<^verbatim>\<open>datastore.Datastore\<close>; \<^verbatim>\<open>generateChunks\<close> asks whether it
  is an \<^verbatim>\<open>*lrustore.LRUStore\<close>. Any other implementation is a state of type \<open>'s\<close> with
  its own \<open>Get\<close> and \<open>Put\<close>, both of which may fail and may change the state.
\<close>

datatype 's Cache = LRU LRUStore | Other 's

subsection \<open>The engine and its collaborators\<close>

text \<open>
  What the source calls and does not define, taken as parameters: the dag-json decoder of
  \<^verbatim>\<open>decodeIPLDNode\<close>; the encoder and the link builder behind \<^verbatim>\<open>lsys.Store\<close>;
  \<^verbatim>\<open>MultihashIterator.Next\<close> on an iterator state \<open>'it\<close> (a value, or an error, \<open>EOF\<close> at
  the end); the \<open>Get\<close> and \<open>Put\<close> of a cache that is not an LRU store; and the engine's
  \<^verbatim>\<open>getCidKeyMap\<close> (engine.go), which maps a content identifier to its context
  identifier or fails.
\<close>

record ('s, 'it) Env =
  decode :: "bytes \<Rightarrow> error + Node"
  encodeChunk :: "EntryChunk \<Rightarrow> error + bytes"
  linkOf :: "bytes \<Rightarrow> cid"
  iterNext :: "'it \<Rightarrow> (error + multihash) \<times> 'it"
  otherGet :: "'s \<Rightarrow> cid \<Rightarrow> (error + slice) \<times> 's"
  otherPut :: "'s \<Rightarrow> cid \<Rightarrow> slice \<Rightarrow> error option \<times> 's"
  getCidKeyMap :: "cid \<Rightarrow> error + bytes"

text \<open>
  The fields of \<^verbatim>\<open>Engine\<close> that linksystem.go reads: \<open>ds\<close> is \<^verbatim>\<open>e.ds.Get\<close> (the
  functions here never write the datastore), \<open>cb\<close> the registered callback or nil.
\<close>

record ('s, 'it) Engine =
  ds :: "cid \<Rightarrow> error + slice"
  cache :: "'s Cache"
  cb :: "(bytes \<Rightarrow> error + 'it) option"
  linkedChunkSize :: int

definition cacheGet ::
  "('s, 'it) Env \<Rightarrow> 's Cache \<Rightarrow> cid \<Rightarrow> (error + slice) \<times> 's Cache" where
  "cacheGet env ch k =
     (case ch of
        LRU ls \<Rightarrow> (case lruGet ls k of (r, ls') \<Rightarrow> (r, LRU ls'))
      | Other s \<Rightarrow> (case otherGet env s k of (r, s') \<Rightarrow> (r, Other s')))"

definition cachePut ::
  "('s, 'it) Env \<Rightarrow> 's Cache \<Rightarrow> cid \<Rightarrow> slice \<Rightarrow> error option \<times> 's Cache" where
  "cachePut env ch k v =
     (case ch of
        LRU ls \<Rightarrow> (None, LRU (lruPut ls k v))
      | Other s \<Rightarrow> (case otherPut env s k v of (r, s') \<Rightarrow> (r, Other s')))"

subsection \<open>Classification\<close>

definition isAdvertisement :: "Node \<Rightarrow> bool" where
  "isAdvertisement n = (LookupByString n ''Signature'' \<noteq> None)"

subsection \<open>getCacheEntry\<close>

text \<open>
  Of the engine only \<^verbatim>\<open>e.cache\<close> changes in this file (an LRU store reorders its
  entries on a hit, the generator stores and resizes). So the functions below take the engine
  or the cache and return the cache they leave.
\<close>

definition getCacheEntry ::
  "('s, 'it) Env \<Rightarrow> 's Cache \<Rightarrow> cid \<Rightarrow> (error + slice) \<times> 's Cache" where
  "getCacheEntry env ch c =
     (case cacheGet env ch c of
        (Inl err, ch') \<Rightarrow> (if err = ErrNotFound then (Inr GoNil, ch') else (Inl err, ch'))
      | (Inr b, ch') \<Rightarrow> (Inr b, ch'))"

subsection \<open>generateChunks\<close>

text \<open>
  The calls the generator makes on the cache, in order: \<open>CallResize n\<close> for
  \<^verbatim>\<open>ls.Resize(ctx, n)\<close>, \<open>CallStore chunk lnk\<close> for a \<^verbatim>\<open>schema.NewLinkedListOfMhs\<close>
  that stored \<open>chunk\<close> through the cache link system and returned the link \<open>lnk\<close>.
\<close>

datatype call = CallResize nat | CallStore EntryChunk cid

text \<open>
  \<^verbatim>\<open>schema.NewLinkedListOfMhs(e.cachelsys, mhs, chunkLnk)\<close>: builds the chunk, encodes
  it, derives its link from the encoded bytes and commits them through the write side of
  \<^verbatim>\<open>cacheLinkSystem\<close>, which is \<^verbatim>\<open>e.cache.Put\<close> under the link's key.
\<close>

definition NewLinkedListOfMhs ::
  "('s, 'it) Env \<Rightarrow> 's Cache \<Rightarrow> multihash list \<Rightarrow> cid option
     \<Rightarrow> (error + cid) \<times> 's Cache" where
  "NewLinkedListOfMhs env ch ms lnk =
     (case encodeChunk env (EntryChunk ms lnk) of
        Inl err \<Rightarrow> (Inl err, ch)
      | Inr b \<Rightarrow>
          (case cachePut env ch (linkOf env b) (bufBytes b) of
             (Some err, ch') \<Rightarrow> (Inl err, ch')
           | (None, ch') \<Rightarrow> (Inr (linkOf env b), ch')))"

text \<open>
  The local variables of \<^verbatim>\<open>generateChunks\<close>, the cache \<^verbatim>\<open>e.cache\<close> as it stands,
  and the calls made so far.
\<close>

record 's gen =
  e_cache :: "'s Cache"
  mhs :: "multihash list"
  resized :: bool
  chunkLnk :: "cid option"
  totalMhCount :: nat
  chunkCount :: nat
  calls :: "call list"

text \<open>
  Lines 160-163 and 176-179: when the cache is an LRU store at capacity, double the capacity.
\<close>

definition growCache :: "'s gen \<Rightarrow> 's gen" where
  "growCache st =
     (case e_cache st of
        LRU ls \<Rightarrow>
          (if Len ls = Cap ls
           then st\<lparr>e_cache := LRU (Resize ls (Cap ls * 2)),
                   resized := True,
                   calls := calls st @ [CallResize (Cap ls * 2)]\<rparr>
           else st)
      | Other s \<Rightarrow> st)"

text \<open>
  Lines 160-168 and 176-185, which the source writes twice: grow the cache if needed, store
  the chunk, count it. \<open>Inl\<close> is \<^verbatim>\<open>return nil, err\<close>, with the state reached.
\<close>

definition writeChunk ::
  "('s, 'it) Env \<Rightarrow> 's gen \<Rightarrow> (error \<times> 's gen) + 's gen" where
  "writeChunk env st =
     (let st1 = growCache st in
      case NewLinkedListOfMhs env (e_cache st1) (mhs st1) (chunkLnk st1) of
        (Inl err, ch) \<Rightarrow> Inl (err, st1\<lparr>e_cache := ch\<rparr>)
      | (Inr lnk, ch) \<Rightarrow>
          Inr (st1\<lparr>e_cache := ch,
                   chunkLnk := Some lnk,
                   chunkCount := chunkCount st1 + 1,
                   calls := calls st1 @ [CallStore (EntryChunk (mhs st1) (chunkLnk st1)) lnk]\<rparr>))"

text \<open>Lines 155-171: the loop body after a successful \<^verbatim>\<open>Next\<close>.\<close>

definition loopBody ::
  "('s, 'it) Env \<Rightarrow> int \<Rightarrow> multihash \<Rightarrow> 's gen \<Rightarrow> (error \<times> 's gen) + 's gen" where
  "loopBody env chunkSize next st =
     (let st1 = st\<lparr>mhs := mhs st @ [next], totalMhCount := totalMhCount st + 1\<rparr> in
      if int (length (mhs st1)) \<ge> chunkSize
      then (case writeChunk env st1 of
              Inl r \<Rightarrow> Inl r
            | Inr st2 \<Rightarrow> Inr (st2\<lparr>mhs := []\<rparr>))
      else Inr st1)"

text \<open>
  Lines 147-172. The loop ends when \<^verbatim>\<open>Next\<close> returns an error: \<open>Inr\<close> is the
  \<^verbatim>\<open>break\<close> at \<open>EOF\<close>, \<open>Inl\<close> a \<^verbatim>\<open>return nil, err\<close>. On an iterator that never
  returns an error the loop does not end: the value is \<open>None\<close>.
\<close>

partial_function (option) chunkLoop ::
  "('s, 'it) Env \<Rightarrow> int \<Rightarrow> 'it \<Rightarrow> 's gen \<Rightarrow> ((error \<times> 's gen) + 's gen) option" where
  "chunkLoop env chunkSize it st =
     (case iterNext env it of
        (Inl err, it') \<Rightarrow> (if err = EOF then Some (Inr st) else Some (Inl (err, st)))
      | (Inr next, it') \<Rightarrow>
          (case loopBody env chunkSize next st of
             Inl r \<Rightarrow> Some (Inl r)
           | Inr st' \<Rightarrow> chunkLoop env chunkSize it' st'))"

text \<open>Lines 175-186: chunk the remaining multihashes.\<close>

definition flushRemaining ::
  "('s, 'it) Env \<Rightarrow> 's gen \<Rightarrow> (error \<times> 's gen) + 's gen" where
  "flushRemaining env st = (if mhs st \<noteq> [] then writeChunk env st else Inr st)"

text \<open>
  Lines 190-193: shrink the cache to its length if it was resized. \<open>resized\<close> is only set
  with an LRU store; with the nil \<^verbatim>\<open>ls\<close> of any other cache the call would panic.
\<close>

definition shrinkCache :: "'s gen \<Rightarrow> (error \<times> 's gen) + 's gen" where
  "shrinkCache st =
     (if resized st
      then (case e_cache st of
              LRU ls \<Rightarrow>
                Inr (st\<lparr>e_cache := LRU (Resize ls (Len ls)),
                        calls := calls st @ [CallResize (Len ls)]\<rparr>)
            | Other s \<Rightarrow> Inl (Panic, st))
      else Inr st)"

definition initGen :: "'s Cache \<Rightarrow> 's gen" where
  "initGen ch =
     \<lparr>e_cache = ch, mhs = [], resized = False, chunkLnk = None,
      totalMhCount = 0, chunkCount = 0, calls = []\<rparr>"

text \<open>What \<^verbatim>\<open>generateChunks\<close> returns, the cache it leaves and the calls it made.\<close>

definition finishGen ::
  "(error \<times> 's gen) + 's gen \<Rightarrow> (error + cid option) \<times> 's Cache \<times> call list" where
  "finishGen r =
     (case r of
        Inl (err, st) \<Rightarrow> (Inl err, e_cache st, calls st)
      | Inr st \<Rightarrow> (Inr (chunkLnk st), e_cache st, calls st))"

text \<open>
  \<^verbatim>\<open>generateChunks\<close>. \<^verbatim>\<open>make([]multihash.Multihash, 0, chunkSize)\<close> panics on a
  negative capacity.
\<close>

definition generateChunks ::
  "('s, 'it) Env \<Rightarrow> ('s, 'it) Engine \<Rightarrow> 'it
     \<Rightarrow> ((error + cid option) \<times> 's Cache \<times> call list) option" where
  "generateChunks env e mhIter =
     (if linkedChunkSize e < 0 then Some (Inl Panic, cache e, [])
      else
        (case chunkLoop env (linkedChunkSize e) mhIter (initGen (cache e)) of
           None \<Rightarrow> None
         | Some (Inl r) \<Rightarrow> Some (finishGen (Inl r))
         | Some (Inr st) \<Rightarrow>
             (case flushRemaining env st of
                Inl r \<Rightarrow> Some (finishGen (Inl r))
              | Inr st' \<Rightarrow> Some (finishGen (shrinkCache st')))))"

subsection \<open>The main link system's read opener\<close>

text \<open>
  Lines 29-49: the datastore lookup. \<open>Some r\<close> is a return of \<open>r\<close>; \<open>None\<close> means that
  control goes on to line 51.
\<close>

definition fromDatastore ::
  "('s, 'it) Env \<Rightarrow> ('s, 'it) Engine \<Rightarrow> cid \<Rightarrow> (error + bytes) option" where
  "fromDatastore env e c =
     (case ds e c of
        Inl err \<Rightarrow> (if err \<noteq> ErrNotFound then Some (Inl err) else None)
      | Inr val \<Rightarrow>
          (if len val \<noteq> 0
           then (case decode env (contents_of val) of
                   Inl err \<Rightarrow> Some (Inl err)
                 | Inr n \<Rightarrow> (if isAdvertisement n then Some (Inr (contents_of val)) else None))
           else None))"

text \<open>Lines 110-124: return the node from the cache.\<close>

definition readFromCache ::
  "('s, 'it) Env \<Rightarrow> 's Cache \<Rightarrow> cid \<Rightarrow> (error + bytes) \<times> 's Cache" where
  "readFromCache env ch c =
     (case getCacheEntry env ch c of
        (Inl err, ch') \<Rightarrow> (Inl err, ch')
      | (Inr val, ch') \<Rightarrow>
          (if len val = 0 then (Inl ErrNotFound, ch') else (Inr (contents_of val), ch')))"

text \<open>Lines 53-124: the ingestion path. \<open>None\<close>: the generator does not return.\<close>

definition ingestionData ::
  "('s, 'it) Env \<Rightarrow> ('s, 'it) Engine \<Rightarrow> cid \<Rightarrow> ((error + bytes) \<times> 's Cache) option" where
  "ingestionData env e c =
     (case cb e of
        None \<Rightarrow> Some (Inl ErrNoCallback, cache e)
      | Some f \<Rightarrow>
          (case getCacheEntry env (cache e) c of
             (Inl err, ch1) \<Rightarrow> Some (Inl err, ch1)
           | (Inr b, ch1) \<Rightarrow>
               (if b = GoNil
                then (case getCidKeyMap env c of
                        Inl err \<Rightarrow> Some (Inl err, ch1)
                      | Inr key \<Rightarrow>
                          (case f key of
                             Inl err \<Rightarrow> Some (Inl err, ch1)
                           | Inr mhIter \<Rightarrow>
                               (case generateChunks env (e\<lparr>cache := ch1\<rparr>) mhIter of
                                  None \<Rightarrow> None
                                | Some (Inl err, ch2, tr) \<Rightarrow> Some (Inl err, ch2)
                                | Some (Inr lnk, ch2, tr) \<Rightarrow> Some (readFromCache env ch2 c))))
                else Some (readFromCache env ch1 c))))"

text \<open>
  The \<^verbatim>\<open>StorageReadOpener\<close> of \<^verbatim>\<open>mkLinkSystem\<close>: the reader's bytes or the error,
  and the cache left behind.
\<close>

definition Read ::
  "('s, 'it) Env \<Rightarrow> ('s, 'it) Engine \<Rightarrow> cid \<Rightarrow> ((error + bytes) \<times> 's Cache) option" where
  "Read env e c =
     (case fromDatastore env e c of
        Some r \<Rightarrow> Some (r, cache e)
      | None \<Rightarrow> ingestionData env e c)"

subsection \<open>The iterator of the \<^verbatim>\<open>pub\<close> command\<close>

text \<open>
  \<^verbatim>\<open>contentsIter\<close> and its \<^verbatim>\<open>Next\<close>; \<open>mhSum\<close> is \<^verbatim>\<open>multihash.Sum\<close> with SHA2-256.
  Indexing past the end of \<open>contents\<close> panics.
\<close>

record contentsIter =
  offset :: nat
  contents :: "string list"

definition contentsIter_Next ::
  "(bytes \<Rightarrow> multihash) \<Rightarrow> contentsIter \<Rightarrow> (error + multihash) \<times> contentsIter" where
  "contentsIter_Next mhSum c =
     (if offset c = length (contents c) then (Inl EOF, c)
      else if offset c < length (contents c)
      then (Inr (mhSum (contents c ! offset c)), c\<lparr>offset := offset c + 1\<rparr>)
      else (Inl Panic, c))"

subsection \<open>Notions used to state the properties\<close>

text \<open>
  An iterator in state \<open>it\<close> yields the multihashes \<open>xs\<close>, one per call of \<open>Next\<close>, and then
  the error \<open>fin\<close> (\<open>EOF\<close> for the end of the sequence).
\<close>

fun yields ::
  "('it \<Rightarrow> (error + multihash) \<times> 'it) \<Rightarrow> 'it \<Rightarrow> multihash list \<Rightarrow> error \<Rightarrow> bool" where
  "yields nxt it [] fin = (fst (nxt it) = Inl fin)"
| "yields nxt it (x # xs) fin = (fst (nxt it) = Inr x \<and> yields nxt (snd (nxt it)) xs fin)"

text \<open>The chunks stored and the capacities set, in the order of the calls.\<close>

fun stores :: "call list \<Rightarrow> (EntryChunk \<times> cid) list" where
  "stores [] = []"
| "stores (CallStore chunk lnk # cs) = (chunk, lnk) # stores cs"
| "stores (CallResize n # cs) = stores cs"

fun resizes :: "call list \<Rightarrow> nat list" where
  "resizes [] = []"
| "resizes (CallResize n # cs) = n # resizes cs"
| "resizes (CallStore chunk lnk # cs) = resizes cs"

text \<open>The numbers of entries of the chunks stored, in the order of the calls.\<close>

definition chunkSizes :: "call list \<Rightarrow> nat list" where
  "chunkSizes tr = map (\<lambda>p. length (Entries (fst p))) (stores tr)"

text \<open>
  A list of stored chunks is chained from \<open>prev\<close>: the first chunk's previous link is
  \<open>prev\<close>, and every later chunk's previous link is the link of the chunk stored just
  before it.
\<close>

fun chained :: "cid option \<Rightarrow> (EntryChunk \<times> cid) list \<Rightarrow> bool" where
  "chained prev [] = True"
| "chained prev ((chunk, lnk) # rest) = (Next chunk = prev \<and> chained (Some lnk) rest)"

text \<open>The link of the last chunk of a list, \<open>prev\<close> if there is none.\<close>

fun lastLink :: "cid option \<Rightarrow> (EntryChunk \<times> cid) list \<Rightarrow> cid option" where
  "lastLink prev [] = prev"
| "lastLink prev ((chunk, lnk) # rest) = lastLink (Some lnk) rest"




text \<open>
  No store of the generator fails: every chunk encodes, and a cache that is not an LRU
  store accepts every \<open>Put\<close> (the \<open>Put\<close> of the LRU store of section 4.4 has no failure).
\<close>

definition storesOK :: "('s, 'it) Env \<Rightarrow> 's Cache \<Rightarrow> bool" where
  "storesOK env ch =
     ((\<forall>chunk. \<exists>b. encodeChunk env chunk = Inr b) \<and>
      (case ch of LRU ls \<Rightarrow> True | Other s0 \<Rightarrow> (\<forall>s k v. fst (otherPut env s k v) = None)))"


subsection \<open>Notions used in the proofs\<close>

text \<open>
  The loop body applied to the multihashes of a list in turn, stopping at the first
  \<^verbatim>\<open>return\<close>: what the loop does on an iterator that yields this list.
\<close>

fun feed :: "('s, 'it) Env \<Rightarrow> int \<Rightarrow> multihash list \<Rightarrow> 's gen \<Rightarrow> (error \<times> 's gen) + 's gen" where
  "feed env k [] st = Inr st"
| "feed env k (x # xs) st =
     (case loopBody env k x st of Inl r \<Rightarrow> Inl r | Inr st' \<Rightarrow> feed env k xs st')"

text \<open>The link that a store of \<open>chunk\<close> returns, when the chunk encodes.\<close>

definition cidOf :: "('s, 'it) Env \<Rightarrow> EntryChunk \<Rightarrow> cid" where
  "cidOf env chunk = linkOf env (case encodeChunk env chunk of Inl err \<Rightarrow> [] | Inr b \<Rightarrow> b)"

text \<open>
  The chunks that successive stores of the batches \<open>bs\<close> make, each linked to the one before,
  the first to \<open>prev\<close>.
\<close>

fun linkChunks ::
  "('s, 'it) Env \<Rightarrow> cid option \<Rightarrow> multihash list list \<Rightarrow> (EntryChunk \<times> cid) list" where
  "linkChunks env prev [] = []"
| "linkChunks env prev (b # bs) =
     (EntryChunk b prev, cidOf env (EntryChunk b prev))
       # linkChunks env (Some (cidOf env (EntryChunk b prev))) bs"

text \<open>
  Two invariants of the generator's loop. \<open>kindInv\<close>: the flag \<open>resized\<close> is set
  exactly when a resize was called, and then the cache is an LRU store. \<open>otherInv\<close>: the
  cache is not an LRU store and no resize was called.
\<close>

definition kindInv :: "'s Cache \<Rightarrow> bool \<Rightarrow> call list \<Rightarrow> bool" where
  "kindInv ch rz tr = ((rz = (resizes tr \<noteq> [])) \<and> (rz \<longrightarrow> (\<exists>ls. ch = LRU ls)))"

definition otherInv :: "'s Cache \<Rightarrow> bool \<Rightarrow> call list \<Rightarrow> bool" where
  "otherInv ch rz tr = ((\<exists>s. ch = Other s) \<and> \<not> rz \<and> resizes tr = [])"

text \<open>
  \<open>keepInv K\<close>: the cache is an LRU store with room for its entries, positive capacity, and
  it holds the keys \<open>K\<close> and the link of every chunk stored so far.
\<close>

definition keepInv :: "cid set \<Rightarrow> 's Cache \<Rightarrow> bool \<Rightarrow> call list \<Rightarrow> bool" where
  "keepInv K ch rz tr =
     (\<exists>ls. ch = LRU ls \<and> Len ls \<le> Cap ls \<and> 0 < Cap ls \<and>
        K \<subseteq> fst ` set (entries ls) \<and> snd ` set (stores tr) \<subseteq> fst ` set (entries ls))"

text \<open>
  The capacity of an LRU store that starts empty with capacity \<open>c\<close>, after \<open>j\<close> stores
  under fresh keys, each preceded by a doubling when the store is full; and the order of
  the calls made on the way.
\<close>

fun capSeq :: "nat \<Rightarrow> nat \<Rightarrow> nat" where
  "capSeq c 0 = c"
| "capSeq c (Suc j) = (if j = capSeq c j then capSeq c j * 2 else capSeq c j)"

fun shapeSeq :: "nat \<Rightarrow> nat \<Rightarrow> nat option list" where
  "shapeSeq c 0 = []"
| "shapeSeq c (Suc j) =
     shapeSeq c j @ (if j = capSeq c j then [Some (capSeq c j * 2)] else []) @ [None]"


subsection \<open>A sample environment\<close>

text \<open>
  Concrete collaborators on which the theorems below are instantiated: a prefix-free
  encoding of chunks (each string is preceded by its length in unary), links that are the
  encoded bytes themselves, \<^verbatim>\<open>contentsIter\<close> as the iterator, and an unbounded
  association list as a cache that is not an LRU store.
\<close>

definition encStr :: "string \<Rightarrow> string" where
  "encStr s = replicate (length s) (CHR ''1'') @ CHR ''0'' # s"

definition sampleEncode :: "EntryChunk \<Rightarrow> bytes" where
  "sampleEncode chunk =
     (case Next chunk of None \<Rightarrow> ''N'' | Some c \<Rightarrow> CHR ''S'' # encStr c)
       @ concat (map encStr (Entries chunk))"

definition sampleDecode :: "bytes \<Rightarrow> error + Node" where
  "sampleDecode b =
     (if b = ''ad'' then Inr (NMap [(''Signature'', NBytes ''sig'')])
      else if b = ''obj'' then Inr (NMap [(''Entries'', NList [])])
      else Inl (ErrOther ''decode''))"

definition sampleEnvWith ::
  "('it \<Rightarrow> (error + multihash) \<times> 'it) \<Rightarrow> ((cid \<times> slice) list, 'it) Env" where
  "sampleEnvWith nxt =
     \<lparr>decode = sampleDecode,
      encodeChunk = (\<lambda>chunk. Inr (sampleEncode chunk)),
      linkOf = (\<lambda>b. b),
      iterNext = nxt,
      otherGet = (\<lambda>s k. (case map_of s k of None \<Rightarrow> Inl ErrNotFound | Some v \<Rightarrow> Inr v, s)),
      otherPut = (\<lambda>s k v. (None, (k, v) # s)),
      getCidKeyMap = (\<lambda>c. Inr ''ctx'')\<rparr>"

definition sampleEnv :: "((cid \<times> slice) list, contentsIter) Env" where
  "sampleEnv = sampleEnvWith (contentsIter_Next (\<lambda>s. s))"

text \<open>
  An iterator that yields the multihashes of a list and then fails with a given error, at
  every later call too.
\<close>

fun scriptNext ::
  "multihash list \<times> error \<Rightarrow> (error + multihash) \<times> (multihash list \<times> error)" where
  "scriptNext ([], err) = (Inl err, ([], err))"
| "scriptNext (x # xs, err) = (Inr x, (xs, err))"

text \<open>The callback of the \<^verbatim>\<open>pub\<close> command, for the context \<open>ctx\<close> and the contents \<open>cs\<close>.\<close>

definition pubCallback :: "bytes \<Rightarrow> string list \<Rightarrow> bytes \<Rightarrow> error + contentsIter" where
  "pubCallback ctxID cs contextID =
     (if ctxID = contextID then Inr \<lparr>offset = 0, contents = cs\<rparr>
      else Inl (ErrOther ''no content for context id''))"

definition emptyLRU :: "nat \<Rightarrow> (cid \<times> slice) list Cache" where
  "emptyLRU n = LRU \<lparr>entries = [], capacity = n\<rparr>"

definition sampleEngine ::
  "(cid \<Rightarrow> error + slice) \<Rightarrow> (cid \<times> slice) list Cache
     \<Rightarrow> (bytes \<Rightarrow> error + contentsIter) option \<Rightarrow> int
     \<Rightarrow> ((cid \<times> slice) list, contentsIter) Engine" where
  "sampleEngine d ch f k = \<lparr>ds = d, cache = ch, cb = f, linkedChunkSize = k\<rparr>"

text \<open>An engine for iterators of this kind: an empty datastore and no callback.\<close>

definition scriptEngine ::
  "(cid \<times> slice) list Cache \<Rightarrow> int \<Rightarrow> ((cid \<times> slice) list, multihash list \<times> error) Engine" where
  "scriptEngine ch k = \<lparr>ds = (\<lambda>c. Inl ErrNotFound), cache = ch, cb = None, linkedChunkSize = k\<rparr>"

section \<open>Properties\<close>

subsection \<open>The loop on an iterator that yields a list\<close>

lemma chunkLoop_yields:
  "yields (iterNext env) it xs fin \<Longrightarrow>
   chunkLoop env k it st =
     Some (case feed env k xs st of
             Inl r \<Rightarrow> Inl r
           | Inr st' \<Rightarrow> (if fin = EOF then Inr st' else Inl (fin, st')))"
proof (induction xs arbitrary: it st)
  case Nil
  then show ?case
    by (subst chunkLoop.simps) (auto split: prod.splits sum.splits)
next
  case (Cons x xs)
  from Cons.prems have n: "fst (iterNext env it) = Inr x"
    and y: "yields (iterNext env) (snd (iterNext env it)) xs fin" by simp_all
  show ?case
  proof (cases "loopBody env k x st")
    case (Inl r)
    with n show ?thesis
      by (subst chunkLoop.simps) (auto split: prod.splits sum.splits)
  next
    case (Inr st')
    with n Cons.IH[OF y, of st'] show ?thesis
      by (subst chunkLoop.simps) (auto split: prod.splits sum.splits)
  qed
qed

lemma feed_append:
  "feed env k (xs @ ys) st =
     (case feed env k xs st of Inl r \<Rightarrow> Inl r | Inr st' \<Rightarrow> feed env k ys st')"
  by (induction xs arbitrary: st) (auto split: sum.splits)

lemma feed_partial:
  "int (length (mhs st) + length b) < k \<Longrightarrow>
   feed env k b st = Inr (st\<lparr>mhs := mhs st @ b, totalMhCount := totalMhCount st + length b\<rparr>)"
proof (induction b arbitrary: st)
  case Nil
  then show ?case by simp
next
  case (Cons x b)
  let ?st1 = "st\<lparr>mhs := mhs st @ [x], totalMhCount := totalMhCount st + 1\<rparr>"
  from Cons.prems have lb: "loopBody env k x st = Inr ?st1"
    by (simp add: loopBody_def Let_def)
  from Cons.prems have "int (length (mhs ?st1) + length b) < k" by simp
  from Cons.IH[OF this] lb show ?case by simp
qed

lemma feed_batch:
  "int (length (mhs st) + length b) = k \<Longrightarrow> b \<noteq> [] \<Longrightarrow>
   feed env k b st =
     (case writeChunk env (st\<lparr>mhs := mhs st @ b, totalMhCount := totalMhCount st + length b\<rparr>) of
        Inl r \<Rightarrow> Inl r
      | Inr st2 \<Rightarrow> Inr (st2\<lparr>mhs := []\<rparr>))"
proof -
  assume k: "int (length (mhs st) + length b) = k" and ne: "b \<noteq> []"
  then obtain b' x where b: "b = b' @ [x]" by (metis rev_exhaust)
  let ?st1 = "st\<lparr>mhs := mhs st @ b', totalMhCount := totalMhCount st + length b'\<rparr>"
  from k b have "int (length (mhs st) + length b') < k" by simp
  from feed_partial[OF this] have f1: "feed env k b' st = Inr ?st1" .
  from k b have ge: "int (length (mhs ?st1 @ [x])) \<ge> k" by simp
  have "feed env k [x] ?st1 =
     (case writeChunk env (?st1\<lparr>mhs := mhs ?st1 @ [x], totalMhCount := totalMhCount ?st1 + 1\<rparr>) of
        Inl r \<Rightarrow> Inl r
      | Inr st2 \<Rightarrow> Inr (st2\<lparr>mhs := []\<rparr>))"
    using ge by (simp add: loopBody_def Let_def split: sum.splits)
  with f1 b show ?thesis by (simp add: feed_append)
qed

lemma stores_append: "stores (a @ b) = stores a @ stores b"
  by (induction a rule: stores.induct) simp_all

lemma resizes_append: "resizes (a @ b) = resizes a @ resizes b"
  by (induction a rule: resizes.induct) simp_all

lemma storesOK_encode: "storesOK env ch \<Longrightarrow> \<exists>b. encodeChunk env chunk = Inr b"
  by (simp add: storesOK_def)

lemma storesOK_put:
  assumes ok: "storesOK env ch"
  shows "\<exists>ch'. cachePut env ch k v = (None, ch') \<and> storesOK env ch'"
proof (cases ch)
  case (LRU ls)
  with ok show ?thesis by (simp add: storesOK_def cachePut_def)
next
  case (Other s)
  obtain r s' where p: "otherPut env s k v = (r, s')" by (cases "otherPut env s k v")
  from ok Other have "fst (otherPut env s k v) = None" by (simp add: storesOK_def)
  with p have "r = None" by simp
  with p Other ok show ?thesis by (simp add: storesOK_def cachePut_def)
qed

lemma storesOK_grow: "storesOK env (e_cache st) \<Longrightarrow> storesOK env (e_cache (growCache st))"
  by (auto simp: storesOK_def growCache_def split: Cache.splits)

lemma growCache_fields [simp]:
  "mhs (growCache st) = mhs st" "chunkLnk (growCache st) = chunkLnk st"
  "stores (calls (growCache st)) = stores (calls st)"
  "chunkCount (growCache st) = chunkCount st" "totalMhCount (growCache st) = totalMhCount st"
  by (auto simp: growCache_def stores_append split: Cache.splits)

lemma writeChunk_ok:
  assumes "storesOK env (e_cache st)"
  shows "\<exists>st'. writeChunk env st = Inr st' \<and> mhs st' = mhs st \<and>
           chunkLnk st' = Some (cidOf env (EntryChunk (mhs st) (chunkLnk st))) \<and>
           stores (calls st') = stores (calls st) @
             [(EntryChunk (mhs st) (chunkLnk st), cidOf env (EntryChunk (mhs st) (chunkLnk st)))] \<and>
           chunkCount st' = chunkCount st + 1 \<and> totalMhCount st' = totalMhCount st \<and>
           storesOK env (e_cache st')"
proof -
  let ?chunk = "EntryChunk (mhs st) (chunkLnk st)"
  from storesOK_encode[OF assms] obtain b where b: "encodeChunk env ?chunk = Inr b" by blast
  from storesOK_put[OF storesOK_grow[OF assms]] obtain ch' where
    p: "cachePut env (e_cache (growCache st)) (linkOf env b) (bufBytes b) = (None, ch')"
    and ok: "storesOK env ch'" by blast
  from b have c: "cidOf env ?chunk = linkOf env b" by (simp add: cidOf_def)
  show ?thesis
    using b p ok c
    by (simp add: writeChunk_def Let_def NewLinkedListOfMhs_def stores_append)
qed

lemma linkChunks_append:
  "linkChunks env p (bs @ cs) =
     linkChunks env p bs @ linkChunks env (lastLink p (linkChunks env p bs)) cs"
  by (induction bs arbitrary: p) simp_all

lemma lastLink_append: "lastLink p (xs @ ys) = lastLink (lastLink p xs) ys"
  by (induction xs arbitrary: p) auto

lemma feed_batches:
  assumes "storesOK env (e_cache st)" and "mhs st = []" and "0 < k"
    and "\<forall>b\<in>set bs. length b = k" and "length r < k"
  shows "\<exists>st'. feed env (int k) (concat bs @ r) st = Inr st' \<and> mhs st' = r \<and>
           chunkLnk st' = lastLink (chunkLnk st) (linkChunks env (chunkLnk st) bs) \<and>
           stores (calls st') = stores (calls st) @ linkChunks env (chunkLnk st) bs \<and>
           chunkCount st' = chunkCount st + length bs \<and>
           totalMhCount st' = totalMhCount st + length (concat bs @ r) \<and>
           storesOK env (e_cache st')"
  using assms
proof (induction bs arbitrary: st)
  case Nil
  then have "int (length (mhs st) + length r) < int k" by simp
  from feed_partial[OF this, of env] Nil show ?case by simp
next
  case (Cons b bs)
  let ?st1 = "st\<lparr>mhs := mhs st @ b, totalMhCount := totalMhCount st + length b\<rparr>"
  from Cons.prems have lb: "int (length (mhs st) + length b) = int k" and ne: "b \<noteq> []" by auto
  have ok1: "storesOK env (e_cache ?st1)" using Cons.prems by simp
  from writeChunk_ok[OF ok1] obtain st2 where w: "writeChunk env ?st1 = Inr st2"
    and m2: "mhs st2 = mhs ?st1"
    and l2: "chunkLnk st2 = Some (cidOf env (EntryChunk (mhs ?st1) (chunkLnk ?st1)))"
    and s2: "stores (calls st2) = stores (calls ?st1) @
             [(EntryChunk (mhs ?st1) (chunkLnk ?st1), cidOf env (EntryChunk (mhs ?st1) (chunkLnk ?st1)))]"
    and c2: "chunkCount st2 = chunkCount ?st1 + 1" and t2: "totalMhCount st2 = totalMhCount ?st1"
    and ok2: "storesOK env (e_cache st2)" by blast
  let ?st3 = "st2\<lparr>mhs := []\<rparr>"
  have fb: "feed env (int k) b st = Inr ?st3"
    using feed_batch[OF lb ne, of env] w by simp
  have "storesOK env (e_cache ?st3)" "mhs ?st3 = []" using ok2 by simp_all
  from Cons.IH[OF this \<open>0 < k\<close> _ \<open>length r < k\<close>] Cons.prems
  obtain st' where f: "feed env (int k) (concat bs @ r) ?st3 = Inr st'" and m: "mhs st' = r"
    and l: "chunkLnk st' = lastLink (chunkLnk ?st3) (linkChunks env (chunkLnk ?st3) bs)"
    and s: "stores (calls st') = stores (calls ?st3) @ linkChunks env (chunkLnk ?st3) bs"
    and c: "chunkCount st' = chunkCount ?st3 + length bs"
    and t: "totalMhCount st' = totalMhCount ?st3 + length (concat bs @ r)"
    and ok: "storesOK env (e_cache st')" by auto
  have "feed env (int k) (concat (b # bs) @ r) st = Inr st'"
    using fb f by (simp add: feed_append)
  moreover have "chunkLnk st' = lastLink (chunkLnk st) (linkChunks env (chunkLnk st) (b # bs))"
    using l l2 Cons.prems(2) by simp
  moreover have "stores (calls st') = stores (calls st) @ linkChunks env (chunkLnk st) (b # bs)"
    using s s2 l2 Cons.prems(2) by simp
  moreover have "chunkCount st' = chunkCount st + length (b # bs)" using c c2 by simp
  moreover have "totalMhCount st' = totalMhCount st + length (concat (b # bs) @ r)"
    using t t2 by simp
  ultimately show ?case using m ok by blast
qed

lemma batches_exist:
  assumes "0 < (k::nat)"
  shows "\<exists>bs r. xs = concat bs @ r \<and> (\<forall>b\<in>set bs. length b = k) \<and> length r < k"
proof (induction xs rule: length_induct)
  case (1 xs)
  show ?case
  proof (cases "length xs < k")
    case True
    then have "xs = concat [] @ xs \<and> (\<forall>b\<in>set []. length b = k) \<and> length xs < k" by simp
    then show ?thesis by blast
  next
    case False
    then have "length (drop k xs) < length xs" using assms by simp
    with 1 obtain bs r where d: "drop k xs = concat bs @ r"
      and a: "\<forall>b\<in>set bs. length b = k" and r: "length r < k" by blast
    have "xs = concat (take k xs # bs) @ r" using d by (metis append_take_drop_id concat.simps(2) append_assoc)
    moreover have "\<forall>b\<in>set (take k xs # bs). length b = k" using a False by simp
    ultimately show ?thesis using r by blast
  qed
qed

subsection \<open>Invariants of the loop\<close>

lemma loopBody_inv:
  assumes w: "\<And>s. P (e_cache s) (resized s) (calls s) \<Longrightarrow>
      (case writeChunk env s of
         Inl (err, s') \<Rightarrow> P (e_cache s') (resized s') (calls s')
       | Inr s' \<Rightarrow> P (e_cache s') (resized s') (calls s'))"
    and p: "P (e_cache st) (resized st) (calls st)"
  shows "case loopBody env k x st of
           Inl (err, s') \<Rightarrow> P (e_cache s') (resized s') (calls s')
         | Inr s' \<Rightarrow> P (e_cache s') (resized s') (calls s')"
proof -
  let ?st1 = "st\<lparr>mhs := mhs st @ [x], totalMhCount := totalMhCount st + 1\<rparr>"
  have "P (e_cache ?st1) (resized ?st1) (calls ?st1)" using p by simp
  from w[OF this] p show ?thesis
    by (auto simp: loopBody_def Let_def split: sum.splits prod.splits)
qed

lemma feed_inv:
  assumes w: "\<And>s. P (e_cache s) (resized s) (calls s) \<Longrightarrow>
      (case writeChunk env s of
         Inl (err, s') \<Rightarrow> P (e_cache s') (resized s') (calls s')
       | Inr s' \<Rightarrow> P (e_cache s') (resized s') (calls s'))"
    and p: "P (e_cache st) (resized st) (calls st)"
  shows "case feed env k xs st of
           Inl (err, s') \<Rightarrow> P (e_cache s') (resized s') (calls s')
         | Inr s' \<Rightarrow> P (e_cache s') (resized s') (calls s')"
  using p
proof (induction xs arbitrary: st)
  case Nil
  then show ?case by simp
next
  case (Cons x xs)
  have lb: "case loopBody env k x st of
           Inl (err, s') \<Rightarrow> P (e_cache s') (resized s') (calls s')
         | Inr s' \<Rightarrow> P (e_cache s') (resized s') (calls s')"
    by (rule loopBody_inv[of P env st k x, OF w Cons.prems])
  show ?case
  proof (cases "loopBody env k x st")
    case (Inl e)
    with lb show ?thesis by simp
  next
    case (Inr st')
    with lb have "P (e_cache st') (resized st') (calls st')" by simp
    from Cons.IH[OF this] Inr show ?thesis by simp
  qed
qed

lemma chunkLoop_inv:
  assumes w: "\<And>s. P (e_cache s) (resized s) (calls s) \<Longrightarrow>
      (case writeChunk env s of
         Inl (err, s') \<Rightarrow> P (e_cache s') (resized s') (calls s')
       | Inr s' \<Rightarrow> P (e_cache s') (resized s') (calls s'))"
    and r: "chunkLoop env k it st = Some r"
    and p: "P (e_cache st) (resized st) (calls st)"
  shows "case r of
           Inl (err, s') \<Rightarrow> P (e_cache s') (resized s') (calls s')
         | Inr s' \<Rightarrow> P (e_cache s') (resized s') (calls s')"
proof -
  let ?W = "\<lambda>env. \<forall>s. P (e_cache s) (resized s) (calls s) \<longrightarrow>
            (case writeChunk env s of
               Inl (err, s') \<Rightarrow> P (e_cache s') (resized s') (calls s')
             | Inr s' \<Rightarrow> P (e_cache s') (resized s') (calls s'))"
  let ?Q = "\<lambda>r. case r of
           Inl (err, s') \<Rightarrow> P (e_cache s') (resized s') (calls s')
         | Inr s' \<Rightarrow> P (e_cache s') (resized s') (calls s')"
  have "?W env \<longrightarrow> P (e_cache st) (resized st) (calls st) \<longrightarrow> ?Q r"
  proof (rule chunkLoop.raw_induct
      [where P = "\<lambda>env k it st r. ?W env \<longrightarrow> P (e_cache st) (resized st) (calls st) \<longrightarrow> ?Q r",
        OF _ r])
    fix loop :: "('a, 'b) Env \<Rightarrow> int \<Rightarrow> 'b \<Rightarrow> 'a gen \<Rightarrow> ((error \<times> 'a gen) + 'a gen) option"
      and env k it st r
    assume ih: "\<And>env k it st r. loop env k it st = Some r \<Longrightarrow>
                 ?W env \<longrightarrow> P (e_cache st) (resized st) (calls st) \<longrightarrow> ?Q r"
      and eq: "(case iterNext env it of
        (Inl err, it') \<Rightarrow> (if err = EOF then Some (Inr st) else Some (Inl (err, st)))
      | (Inr next, it') \<Rightarrow>
          (case loopBody env k next st of
             Inl r \<Rightarrow> Some (Inl r)
           | Inr st' \<Rightarrow> loop env k it' st')) = Some r"
    show "?W env \<longrightarrow> P (e_cache st) (resized st) (calls st) \<longrightarrow> ?Q r"
    proof (intro impI)
      assume w': "?W env" and p': "P (e_cache st) (resized st) (calls st)"
      obtain res it' where n: "iterNext env it = (res, it')" by (cases "iterNext env it")
      show "?Q r"
      proof (cases res)
        case (Inl err)
        with eq n p' show ?thesis by (auto split: if_splits)
      next
        case (Inr x)
        have lb: "?Q (loopBody env k x st)"
          using loopBody_inv[of P env st k x] w' p' by blast
        show ?thesis
        proof (cases "loopBody env k x st")
          case (Inl e)
          with eq n Inr lb show ?thesis by auto
        next
          case (Inr st')
          with eq n \<open>res = Inr x\<close> have l: "loop env k it' st' = Some r" by simp
          from lb Inr have p2: "P (e_cache st') (resized st') (calls st')" by simp
          from ih[OF l] w' p2 show ?thesis by blast
        qed
      qed
    qed
  qed
  with w p show ?thesis by blast
qed

lemma cachePut_kind:
  "cachePut env ch k v = (r, ch') \<Longrightarrow> (\<exists>ls. ch' = LRU ls) = (\<exists>ls. ch = LRU ls)"
  by (cases ch) (auto simp: cachePut_def split: prod.splits)

lemma NewLinkedListOfMhs_kind:
  "NewLinkedListOfMhs env ch ms lnk = (r, ch') \<Longrightarrow> (\<exists>ls. ch' = LRU ls) = (\<exists>ls. ch = LRU ls)"
  by (auto simp: NewLinkedListOfMhs_def split: sum.splits prod.splits option.splits
      dest: cachePut_kind)

lemma growCache_kindInv:
  "kindInv (e_cache s) (resized s) (calls s) \<Longrightarrow>
   kindInv (e_cache (growCache s)) (resized (growCache s)) (calls (growCache s))"
  by (auto simp: kindInv_def growCache_def resizes_append split: Cache.splits)

lemma growCache_otherInv:
  "otherInv (e_cache s) (resized s) (calls s) \<Longrightarrow> growCache s = s"
  by (auto simp: otherInv_def growCache_def)

lemma writeChunk_kindInv:
  assumes "kindInv (e_cache s) (resized s) (calls s)"
  shows "case writeChunk env s of
           Inl (err, s') \<Rightarrow> kindInv (e_cache s') (resized s') (calls s')
         | Inr s' \<Rightarrow> kindInv (e_cache s') (resized s') (calls s')"
proof -
  let ?g = "growCache s"
  obtain r ch where n: "NewLinkedListOfMhs env (e_cache ?g) (mhs ?g) (chunkLnk ?g) = (r, ch)"
    by (cases "NewLinkedListOfMhs env (e_cache ?g) (mhs ?g) (chunkLnk ?g)")
  from NewLinkedListOfMhs_kind[OF n] growCache_kindInv[OF assms]
  have "kindInv ch (resized ?g) (calls ?g)" by (simp add: kindInv_def)
  with n show ?thesis
    by (cases r) (simp_all add: writeChunk_def Let_def kindInv_def resizes_append)
qed

lemma writeChunk_otherInv:
  assumes "otherInv (e_cache s) (resized s) (calls s)"
  shows "case writeChunk env s of
           Inl (err, s') \<Rightarrow> otherInv (e_cache s') (resized s') (calls s')
         | Inr s' \<Rightarrow> otherInv (e_cache s') (resized s') (calls s')"
proof -
  have g: "growCache s = s" by (rule growCache_otherInv[OF assms])
  obtain r ch where n: "NewLinkedListOfMhs env (e_cache s) (mhs s) (chunkLnk s) = (r, ch)"
    by (cases "NewLinkedListOfMhs env (e_cache s) (mhs s) (chunkLnk s)")
  from NewLinkedListOfMhs_kind[OF n] assms have "\<exists>s'. ch = Other s'"
    by (cases ch) (auto simp: otherInv_def)
  with n g assms show ?thesis
    by (cases r) (simp_all add: writeChunk_def Let_def otherInv_def resizes_append)
qed

lemma shrinkCache_ok:
  assumes "kindInv (e_cache st) (resized st) (calls st)"
  shows "\<exists>st'. shrinkCache st = Inr st' \<and> chunkLnk st' = chunkLnk st \<and>
           stores (calls st') = stores (calls st)"
  using assms
  by (cases "e_cache st") (auto simp: shrinkCache_def kindInv_def stores_append)

lemma kindInv_init: "kindInv ch False []"
  by (simp add: kindInv_def)

lemma generateChunks_closed:
  assumes y: "yields (iterNext env) it (concat bs @ r) EOF"
    and ok: "storesOK env (cache e)"
    and k: "0 < k" "linkedChunkSize e = int k"
    and full: "\<forall>b\<in>set bs. length b = k" and r: "length r < k"
  shows "\<exists>ch tr. generateChunks env e it = Some (Inr (lastLink None (stores tr)), ch, tr) \<and>
           stores tr = linkChunks env None (bs @ (if r = [] then [] else [r]))"
proof -
  let ?st0 = "initGen (cache e)"
  have ok0: "storesOK env (e_cache ?st0)" and m0: "mhs ?st0 = []" using ok by (simp_all add: initGen_def)
  from feed_batches[OF ok0 m0 k(1) full r] obtain st1 where
    f: "feed env (int k) (concat bs @ r) ?st0 = Inr st1" and m1: "mhs st1 = r"
    and l1: "chunkLnk st1 = lastLink None (linkChunks env None bs)"
    and s1: "stores (calls st1) = linkChunks env None bs"
    and ok1: "storesOK env (e_cache st1)"
    by (auto simp: initGen_def)
  have loop: "chunkLoop env (int k) it ?st0 = Some (Inr st1)"
    using chunkLoop_yields[OF y, of "int k" ?st0] f by simp
  have "kindInv (e_cache ?st0) (resized ?st0) (calls ?st0)" by (simp add: initGen_def kindInv_init)
  from feed_inv[of kindInv env ?st0 "int k" "concat bs @ r", OF writeChunk_kindInv this] f
  have k1: "kindInv (e_cache st1) (resized st1) (calls st1)" by simp
  have "\<exists>st2. flushRemaining env st1 = Inr st2 \<and>
          kindInv (e_cache st2) (resized st2) (calls st2) \<and>
          chunkLnk st2 = lastLink None (linkChunks env None (bs @ (if r = [] then [] else [r]))) \<and>
          stores (calls st2) = linkChunks env None (bs @ (if r = [] then [] else [r]))"
  proof (cases "r = []")
    case True
    with m1 k1 l1 s1 show ?thesis by (simp add: flushRemaining_def)
  next
    case False
    from writeChunk_ok[OF ok1] obtain st2 where w: "writeChunk env st1 = Inr st2"
      and l2: "chunkLnk st2 = Some (cidOf env (EntryChunk (mhs st1) (chunkLnk st1)))"
      and s2: "stores (calls st2) = stores (calls st1) @
             [(EntryChunk (mhs st1) (chunkLnk st1), cidOf env (EntryChunk (mhs st1) (chunkLnk st1)))]"
      by blast
    from writeChunk_kindInv[OF k1, of env] w
    have k2: "kindInv (e_cache st2) (resized st2) (calls st2)" by simp
    from False m1 w have "flushRemaining env st1 = Inr st2" by (simp add: flushRemaining_def)
    moreover have "stores (calls st2) = linkChunks env None (bs @ [r])"
      using s2 s1 l1 m1 by (simp add: linkChunks_append)
    moreover have "chunkLnk st2 = lastLink None (linkChunks env None (bs @ [r]))"
      using l2 l1 m1 by (simp add: linkChunks_append lastLink_append)
    ultimately show ?thesis using k2 False by simp
  qed
  then obtain st2 where fl: "flushRemaining env st1 = Inr st2"
    and k2: "kindInv (e_cache st2) (resized st2) (calls st2)"
    and l2: "chunkLnk st2 = lastLink None (linkChunks env None (bs @ (if r = [] then [] else [r])))"
    and s2: "stores (calls st2) = linkChunks env None (bs @ (if r = [] then [] else [r]))"
    by blast
  from shrinkCache_ok[OF k2] obtain st3 where sh: "shrinkCache st2 = Inr st3"
    and l3: "chunkLnk st3 = chunkLnk st2" and s3: "stores (calls st3) = stores (calls st2)"
    by blast
  have "generateChunks env e it = Some (Inr (chunkLnk st3), e_cache st3, calls st3)"
    using loop fl sh k by (simp add: generateChunks_def finishGen_def)
  with l3 l2 s2 s3 show ?thesis by simp
qed

lemma chained_linkChunks: "chained p (linkChunks env p bs)"
  by (induction bs arbitrary: p) simp_all

lemma entries_linkChunks: "map (\<lambda>p. Entries (fst p)) (linkChunks env p bs) = bs"
  by (induction bs arbitrary: p) simp_all

lemma length_linkChunks: "length (linkChunks env p bs) = length bs"
  by (induction bs arbitrary: p) simp_all

lemma lastLink_last: "S \<noteq> [] \<Longrightarrow> lastLink p S = Some (snd (last S))"
  by (induction S arbitrary: p) (auto split: prod.splits)

lemma length_concat_full: "\<forall>b\<in>set bs. length b = k \<Longrightarrow> length (concat bs) = k * length bs"
  by (induction bs) simp_all


lemma batch_div_mod:
  assumes "0 < (k::nat)" and "length r < k"
  shows "(k * length bs + length r) div k = length bs" "(k * length bs + length r) mod k = length r"
  using assms by simp_all

lemma contentsIter_yields:
  "i \<le> length cs \<Longrightarrow>
   yields (contentsIter_Next f) \<lparr>offset = i, contents = cs\<rparr> (map f (drop i cs)) EOF"
proof (induction "length cs - i" arbitrary: i)
  case 0
  then show ?case by (simp add: contentsIter_Next_def)
next
  case (Suc n)
  then have lt: "i < length cs" and n: "n = length cs - Suc i" by simp_all
  from lt have d: "drop i cs = cs ! i # drop (Suc i) cs" by (simp add: Cons_nth_drop_Suc)
  from Suc.hyps(1)[OF n] lt have "yields (contentsIter_Next f) \<lparr>offset = Suc i, contents = cs\<rparr>
      (map f (drop (Suc i) cs)) EOF" by simp
  with lt d show ?case by (simp add: contentsIter_Next_def)
qed

subsection \<open>The generator's result\<close>

lemma generateChunks_yields:
  assumes "yields (iterNext env) it xs fin" and "0 \<le> linkedChunkSize e"
  shows "generateChunks env e it =
     Some (case feed env (linkedChunkSize e) xs (initGen (cache e)) of
             Inl r \<Rightarrow> finishGen (Inl r)
           | Inr st \<Rightarrow>
               (if fin = EOF
                then (case flushRemaining env st of
                        Inl r \<Rightarrow> finishGen (Inl r)
                      | Inr st' \<Rightarrow> finishGen (shrinkCache st'))
                else finishGen (Inl (fin, st))))"
  using assms(2) chunkLoop_yields[OF assms(1), of "linkedChunkSize e" "initGen (cache e)"]
  by (auto simp: generateChunks_def split: sum.splits)

lemma generateChunks_inv:
  assumes w: "\<And>s. P (e_cache s) (resized s) (calls s) \<Longrightarrow>
      (case writeChunk env s of
         Inl (err, s') \<Rightarrow> P (e_cache s') (resized s') (calls s')
       | Inr s' \<Rightarrow> P (e_cache s') (resized s') (calls s'))"
    and g: "generateChunks env e it = Some (res, ch, tr)"
    and p0: "P (cache e) False []"
  shows "\<exists>st. P (e_cache st) (resized st) (calls st) \<and>
           ((\<exists>err. res = Inl err \<and> ch = e_cache st \<and> tr = calls st) \<or>
            (res, ch, tr) = finishGen (shrinkCache st))"
proof (cases "linkedChunkSize e < 0")
  case True
  with g have "res = Inl Panic \<and> ch = e_cache (initGen (cache e)) \<and> tr = calls (initGen (cache e))"
    by (simp add: generateChunks_def initGen_def)
  moreover have "P (e_cache (initGen (cache e))) (resized (initGen (cache e))) (calls (initGen (cache e)))"
    using p0 by (simp add: initGen_def)
  ultimately show ?thesis by blast
next
  case False
  let ?st0 = "initGen (cache e)"
  have p: "P (e_cache ?st0) (resized ?st0) (calls ?st0)" using p0 by (simp add: initGen_def)
  from g False obtain r where l: "chunkLoop env (linkedChunkSize e) it ?st0 = Some r"
    by (cases "chunkLoop env (linkedChunkSize e) it ?st0") (simp_all add: generateChunks_def)
  note inv = chunkLoop_inv[of P env "linkedChunkSize e" it ?st0 r, OF w l p]
  show ?thesis
  proof (cases r)
    case (Inl a)
    obtain err st where a: "a = (err, st)" by (cases a)
    with inv Inl have "P (e_cache st) (resized st) (calls st)" by simp
    moreover from g False l Inl a have "res = Inl err \<and> ch = e_cache st \<and> tr = calls st"
      by (simp add: generateChunks_def finishGen_def)
    ultimately show ?thesis by blast
  next
    case (Inr st)
    with inv have p1: "P (e_cache st) (resized st) (calls st)" by simp
    show ?thesis
    proof (cases "flushRemaining env st")
      case (Inl a)
      obtain err st' where a: "a = (err, st')" by (cases a)
      from Inl a have wr: "writeChunk env st = Inl (err, st')"
        by (simp add: flushRemaining_def split: if_splits)
      from w[OF p1] wr have "P (e_cache st') (resized st') (calls st')" by simp
      moreover from g False l \<open>r = Inr st\<close> Inl a have "res = Inl err \<and> ch = e_cache st' \<and> tr = calls st'"
        by (simp add: generateChunks_def finishGen_def)
      ultimately show ?thesis by blast
    next
      case (Inr st')
      have "P (e_cache st') (resized st') (calls st')"
      proof (cases "mhs st \<noteq> []")
        case True
        with Inr have "writeChunk env st = Inr st'" by (simp add: flushRemaining_def)
        with w[OF p1] show ?thesis by simp
      next
        case False
        with Inr p1 show ?thesis by (simp add: flushRemaining_def)
      qed
      moreover from g \<open>\<not> linkedChunkSize e < 0\<close> l \<open>r = Inr st\<close> Inr
      have "(res, ch, tr) = finishGen (shrinkCache st')"
        by (simp add: generateChunks_def)
      ultimately show ?thesis by blast
    qed
  qed
qed

lemma generateChunks_other:
  assumes "cache e = Other s" and g: "generateChunks env e it = Some (res, ch, tr)"
  shows "resizes tr = [] \<and> (\<exists>s'. ch = Other s')"
proof -
  have p0: "otherInv (cache e) False []" using assms(1) by (simp add: otherInv_def)
  from generateChunks_inv[of otherInv env e it res ch tr, OF writeChunk_otherInv g p0]
  obtain st where i: "otherInv (e_cache st) (resized st) (calls st)"
    and d: "(\<exists>err. res = Inl err \<and> ch = e_cache st \<and> tr = calls st) \<or>
            (res, ch, tr) = finishGen (shrinkCache st)" by blast
  from i have "shrinkCache st = Inr st" by (simp add: shrinkCache_def otherInv_def)
  with d have "ch = e_cache st \<and> tr = calls st" by (auto simp: finishGen_def)
  with i show ?thesis by (simp add: otherInv_def)
qed


lemma generateChunks_same_stores:
  assumes y: "yields (iterNext env) it xs EOF" and k: "0 < k"
    and k1: "linkedChunkSize e = int k" and k2: "linkedChunkSize e' = int k"
    and ok1: "storesOK env (cache e)" and ok2: "storesOK env (cache e')"
  shows "\<exists>head ch1 tr1 ch2 tr2.
           generateChunks env e it = Some (Inr head, ch1, tr1) \<and>
           generateChunks env e' it = Some (Inr head, ch2, tr2) \<and>
           stores tr1 = stores tr2"
proof -
  from batches_exist[OF k, of xs] obtain bs r where xs: "xs = concat bs @ r"
    and full: "\<forall>b\<in>set bs. length b = k" and r: "length r < k" by blast
  from generateChunks_closed[OF y[unfolded xs] ok1 k k1 full r] obtain ch1 tr1 where
    g1: "generateChunks env e it = Some (Inr (lastLink None (stores tr1)), ch1, tr1)"
    and s1: "stores tr1 = linkChunks env None (bs @ (if r = [] then [] else [r]))" by blast
  from generateChunks_closed[OF y[unfolded xs] ok2 k k2 full r] obtain ch2 tr2 where
    g2: "generateChunks env e' it = Some (Inr (lastLink None (stores tr2)), ch2, tr2)"
    and s2: "stores tr2 = linkChunks env None (bs @ (if r = [] then [] else [r]))" by blast
  from g1 g2 s1 s2 show ?thesis by simp
qed

subsection \<open>The LRU store under the generator\<close>

lemma lruPut_room:
  assumes "Len ls < Cap ls"
  shows "entries (lruPut ls k v) = (k, v) # filter (\<lambda>p. fst p \<noteq> k) (entries ls)"
    and "capacity (lruPut ls k v) = capacity ls"
proof -
  from assms have a: "length (entries ls) < capacity ls" by (simp add: Len_def Cap_def)
  have b: "length (filter (\<lambda>p. fst p \<noteq> k) (entries ls)) \<le> length (entries ls)"
    by (rule length_filter_le)
  from a b have "Suc (length (filter (\<lambda>p. fst p \<noteq> k) (entries ls))) \<le> capacity ls"
    by linarith
  then have "length ((k, v) # filter (\<lambda>p. fst p \<noteq> k) (entries ls)) \<le> capacity ls"
    by simp
  then show "entries (lruPut ls k v) = (k, v) # filter (\<lambda>p. fst p \<noteq> k) (entries ls)"
    by (simp add: lruPut_def)
  show "capacity (lruPut ls k v) = capacity ls" by (simp add: lruPut_def)
qed

lemma keys_filter: "fst ` set (filter (\<lambda>p. fst p \<noteq> k) xs) = fst ` set xs - {k}"
  by (induction xs) auto

text \<open>The state after the growth step, for an LRU store with room for its entries.\<close>

lemma growCache_LRU:
  assumes "e_cache s = LRU ls" and "Len ls \<le> Cap ls" and "0 < Cap ls"
  shows "\<exists>ls1. e_cache (growCache s) = LRU ls1 \<and> entries ls1 = entries ls \<and>
           Len ls1 < Cap ls1 \<and>
           Cap ls1 = (if Len ls = Cap ls then Cap ls * 2 else Cap ls) \<and>
           calls (growCache s) =
             calls s @ (if Len ls = Cap ls then [CallResize (Cap ls * 2)] else []) \<and>
           resized (growCache s) = (resized s \<or> Len ls = Cap ls)"
  using assms by (auto simp: growCache_def Resize_def Len_def Cap_def)

lemma writeChunk_unencoded:
  "encodeChunk env (EntryChunk (mhs s) (chunkLnk s)) = Inl err \<Longrightarrow>
   writeChunk env s = Inl (err, growCache s)"
  by (simp add: writeChunk_def Let_def NewLinkedListOfMhs_def)

lemma writeChunk_LRU:
  assumes "e_cache s = LRU ls" and "Len ls \<le> Cap ls" and "0 < Cap ls"
    and enc: "encodeChunk env (EntryChunk (mhs s) (chunkLnk s)) = Inr b"
  obtains ls1 s' where "writeChunk env s = Inr s'"
    and "e_cache s' = LRU (lruPut ls1 (linkOf env b) (bufBytes b))"
    and "entries (lruPut ls1 (linkOf env b) (bufBytes b)) =
              (linkOf env b, bufBytes b) # filter (\<lambda>p. fst p \<noteq> linkOf env b) (entries ls)"
    and "capacity (lruPut ls1 (linkOf env b) (bufBytes b)) = Cap ls1"
    and "Cap ls1 = (if Len ls = Cap ls then Cap ls * 2 else Cap ls)"
    and "calls s' = calls s @ (if Len ls = Cap ls then [CallResize (Cap ls * 2)] else [])
                         @ [CallStore (EntryChunk (mhs s) (chunkLnk s)) (linkOf env b)]"
    and "resized s' = (resized s \<or> Len ls = Cap ls)"
    and "chunkLnk s' = Some (linkOf env b)" and "mhs s' = mhs s"
proof -
  from growCache_LRU[OF assms(1-3)] obtain ls1 where g: "e_cache (growCache s) = LRU ls1"
    and e1: "entries ls1 = entries ls" and lt: "Len ls1 < Cap ls1"
    and c1: "Cap ls1 = (if Len ls = Cap ls then Cap ls * 2 else Cap ls)"
    and t1: "calls (growCache s) =
             calls s @ (if Len ls = Cap ls then [CallResize (Cap ls * 2)] else [])"
    and r1: "resized (growCache s) = (resized s \<or> Len ls = Cap ls)" by blast
  let ?s' = "(growCache s)\<lparr>e_cache := LRU (lruPut ls1 (linkOf env b) (bufBytes b)),
                 chunkLnk := Some (linkOf env b),
                 chunkCount := chunkCount (growCache s) + 1,
                 calls := calls (growCache s) @
                   [CallStore (EntryChunk (mhs s) (chunkLnk s)) (linkOf env b)]\<rparr>"
  from enc g have w: "writeChunk env s = Inr ?s'"
    by (simp add: writeChunk_def Let_def NewLinkedListOfMhs_def cachePut_def)
  note room = lruPut_room[OF lt, of "linkOf env b" "bufBytes b"]
  have en: "entries (lruPut ls1 (linkOf env b) (bufBytes b)) =
            (linkOf env b, bufBytes b) # filter (\<lambda>p. fst p \<noteq> linkOf env b) (entries ls)"
    using room(1) e1 by simp
  have cp: "capacity (lruPut ls1 (linkOf env b) (bufBytes b)) = Cap ls1"
    using room(2) by (simp add: Cap_def)
  show thesis
    by (rule that[of ?s' ls1]) (use w en cp c1 t1 r1 in simp_all)
qed

lemma writeChunk_keepInv:
  assumes "keepInv K (e_cache s) (resized s) (calls s)"
  shows "case writeChunk env s of
           Inl (err, s') \<Rightarrow> keepInv K (e_cache s') (resized s') (calls s')
         | Inr s' \<Rightarrow> keepInv K (e_cache s') (resized s') (calls s')"
proof -
  from assms obtain ls where ls: "e_cache s = LRU ls" and le: "Len ls \<le> Cap ls"
    and pos: "0 < Cap ls" and K: "K \<subseteq> fst ` set (entries ls)"
    and S: "snd ` set (stores (calls s)) \<subseteq> fst ` set (entries ls)"
    by (auto simp: keepInv_def)
  from growCache_LRU[OF ls le pos] obtain ls1 where g: "e_cache (growCache s) = LRU ls1"
    and e1: "entries ls1 = entries ls" and lt: "Len ls1 < Cap ls1" by blast
  have kg: "keepInv K (e_cache (growCache s)) (resized (growCache s)) (calls (growCache s))"
    using g e1 lt K S by (auto simp: keepInv_def Len_def)
  show ?thesis
  proof (cases "encodeChunk env (EntryChunk (mhs s) (chunkLnk s))")
    case (Inl err)
    from writeChunk_unencoded[OF this] kg show ?thesis by simp
  next
    case (Inr b)
    from writeChunk_LRU[OF ls le pos Inr] obtain ls2 s' where w: "writeChunk env s = Inr s'"
      and c: "e_cache s' = LRU (lruPut ls2 (linkOf env b) (bufBytes b))"
      and en: "entries (lruPut ls2 (linkOf env b) (bufBytes b)) =
              (linkOf env b, bufBytes b) # filter (\<lambda>p. fst p \<noteq> linkOf env b) (entries ls)"
      and cp: "capacity (lruPut ls2 (linkOf env b) (bufBytes b)) = Cap ls2"
      and c2: "Cap ls2 = (if Len ls = Cap ls then Cap ls * 2 else Cap ls)"
      and t: "calls s' = calls s @ (if Len ls = Cap ls then [CallResize (Cap ls * 2)] else [])
                         @ [CallStore (EntryChunk (mhs s) (chunkLnk s)) (linkOf env b)]" .
    let ?l = "lruPut ls2 (linkOf env b) (bufBytes b)"
    have keys: "fst ` set (entries ?l) = insert (linkOf env b) (fst ` set (entries ls))"
      using en by (auto simp: keys_filter)
    define n where "n = length (filter (\<lambda>p. fst p \<noteq> linkOf env b) (entries ls))"
    have nle: "n \<le> Len ls" unfolding n_def Len_def by (rule length_filter_le)
    have ln: "Len ?l = Suc n" using en by (simp add: Len_def n_def)
    have cn: "Cap ?l = (if Len ls = Cap ls then Cap ls * 2 else Cap ls)"
      using cp c2 by (simp add: Cap_def)
    have len: "Len ?l \<le> Cap ?l" unfolding ln cn using nle le pos by (simp split: if_splits)
    have cpos: "0 < Cap ?l" using cp c2 pos by (simp add: Cap_def split: if_splits)
    have st: "stores (calls s') = stores (calls s) @ [(EntryChunk (mhs s) (chunkLnk s), linkOf env b)]"
      using t by (simp add: stores_append)
    have "keepInv K (e_cache s') (resized s') (calls s')"
      unfolding keepInv_def using c len cpos keys K S st by auto
    with w show ?thesis by simp
  qed
qed











lemma capSeq_2_5: "capSeq 2 5 = 8"
  and shapeSeq_2_5: "shapeSeq 2 5 = [None, None, Some 4, None, None, Some 8, None]"
  by (simp_all add: numeral_eq_Suc)



subsection \<open>The read opener\<close>

lemma generateChunks_ds:
  "generateChunks env (e\<lparr>ds := d, cache := ch\<rparr>) it = generateChunks env (e\<lparr>cache := ch\<rparr>) it"
  by (simp add: generateChunks_def)

lemma ingestionData_ds: "ingestionData env (e\<lparr>ds := d\<rparr>) c = ingestionData env e c"
  by (simp add: ingestionData_def generateChunks_ds
      cong: option.case_cong prod.case_cong sum.case_cong if_cong)

lemma Read_ds_irrelevant:
  assumes "fromDatastore env e c = None"
  shows "Read env e c = Read env (e\<lparr>ds := (ds e)(c := Inl ErrNotFound)\<rparr>) c"
proof -
  have "fromDatastore env (e\<lparr>ds := (ds e)(c := Inl ErrNotFound)\<rparr>) c = None"
    by (simp add: fromDatastore_def)
  with assms show ?thesis by (simp add: Read_def ingestionData_ds)
qed

lemma len_contents_of: "len v = length (contents_of v)"
  by (cases v) simp_all

lemma readFromCache_nonempty: "readFromCache env ch c = (Inr b, ch') \<Longrightarrow> b \<noteq> []"
  by (cases "getCacheEntry env ch c")
     (auto simp: readFromCache_def len_contents_of split: sum.splits if_splits)

lemma fromDatastore_nonempty: "fromDatastore env e c = Some (Inr b) \<Longrightarrow> b \<noteq> []"
  by (auto simp: fromDatastore_def len_contents_of split: sum.splits if_splits)

lemma ingestionData_nonempty:
  assumes "ingestionData env e c = Some (Inr b, ch)"
  shows "b \<noteq> []"
proof -
  from assms obtain ch0 ch' where "readFromCache env ch0 c = (Inr b, ch')"
    by (auto simp: ingestionData_def split: option.splits prod.splits sum.splits if_splits)
  then show ?thesis by (rule readFromCache_nonempty)
qed

lemma Read_nonempty:
  assumes "Read env e c = Some (Inr b, ch)"
  shows "b \<noteq> []"
proof (cases "fromDatastore env e c")
  case None
  with assms have "ingestionData env e c = Some (Inr b, ch)" by (simp add: Read_def)
  then show ?thesis by (rule ingestionData_nonempty)
next
  case (Some r)
  with assms have "fromDatastore env e c = Some (Inr b)" by (simp add: Read_def)
  then show ?thesis by (rule fromDatastore_nonempty)
qed

subsection \<open>The sample environment\<close>

lemma sample_yields:
  "yields (iterNext sampleEnv) \<lparr>offset = 0, contents = cs\<rparr> cs EOF"
  using contentsIter_yields[of 0 cs "\<lambda>s. s"] by (simp add: sampleEnv_def sampleEnvWith_def)

lemma sample_storesOK: "storesOK sampleEnv ch"
  by (cases ch) (simp_all add: storesOK_def sampleEnv_def sampleEnvWith_def)

lemmas sample_defs =
  sampleEnv_def sampleEnvWith_def sampleEngine_def emptyLRU_def sampleEncode_def encStr_def

lemmas gen_defs =
  initGen_def loopBody_def writeChunk_def growCache_def NewLinkedListOfMhs_def cachePut_def
  lruPut_def Resize_def Len_def Cap_def bufBytes_def flushRemaining_def shrinkCache_def
  finishGen_def Let_def

lemma sample_run_one:
  "generateChunks sampleEnv (sampleEngine d (emptyLRU 2) f 2) \<lparr>offset = 0, contents = [''a'']\<rparr>
     = Some (Inr (Some ''N10a''),
             LRU \<lparr>entries = [(''N10a'', GoBytes ''N10a'')], capacity = 2\<rparr>,
             [CallStore (EntryChunk [''a''] None) ''N10a''])"
proof -
  have "0 \<le> linkedChunkSize (sampleEngine d (emptyLRU 2) f 2)" by (simp add: sampleEngine_def)
  from generateChunks_yields[OF sample_yields this]
  show ?thesis by (simp add: sample_defs gen_defs)
qed

lemma sample_run_one_nil:
  "generateChunks sampleEnv
     (sampleEngine d (LRU \<lparr>entries = [(''zzz'', GoNil)], capacity = 2\<rparr>) f 2)
     \<lparr>offset = 0, contents = [''a'']\<rparr>
     = Some (Inr (Some ''N10a''),
             LRU \<lparr>entries = [(''N10a'', GoBytes ''N10a''), (''zzz'', GoNil)], capacity = 2\<rparr>,
             [CallStore (EntryChunk [''a''] None) ''N10a''])"
proof -
  have "0 \<le> linkedChunkSize (sampleEngine d (LRU \<lparr>entries = [(''zzz'', GoNil)], capacity = 2\<rparr>) f 2)"
    by (simp add: sampleEngine_def)
  from generateChunks_yields[OF sample_yields this]
  show ?thesis by (simp add: sample_defs gen_defs)
qed







lemma sampleWith_storesOK: "storesOK (sampleEnvWith nxt) ch"
  by (cases ch) (simp_all add: storesOK_def sampleEnvWith_def)

lemma script_yields: "yields scriptNext (xs, err) xs err"
  by (induction xs) simp_all

lemma sample_run_other:
  "generateChunks sampleEnv (sampleEngine d (Other []) f 2) \<lparr>offset = 0, contents = [''a'']\<rparr>
     = Some (Inr (Some ''N10a''), Other [(''N10a'', GoBytes ''N10a'')],
             [CallStore (EntryChunk [''a''] None) ''N10a''])"
proof -
  have "0 \<le> linkedChunkSize (sampleEngine d (Other []) f 2)" by (simp add: sampleEngine_def)
  from generateChunks_yields[OF sample_yields this]
  show ?thesis by (simp add: sample_defs gen_defs)
qed

subsection \<open>The claims\<close>

text \<open>
  C1, as amended. An identifier found in the persistent object store with bytes that decode
  to a node which is not an advertisement is not answered with the stored bytes: the read
  goes on to the ingestion path, with the outcome it has for an identifier that the store
  lacks; with no callback registered it fails with \<open>ErrNoCallback\<close>.
\<close>

theorem read_non_advertisement:
  assumes "ds e c = Inr val" and "len val \<noteq> 0"
    and "decode env (contents_of val) = Inr n" and "\<not> isAdvertisement n"
  shows "Read env e c = Read env (e\<lparr>ds := (ds e)(c := Inl ErrNotFound)\<rparr>) c \<and>
         (cb e = None \<longrightarrow> Read env e c = Some (Inl ErrNoCallback, cache e))"
proof -
  from assms have f: "fromDatastore env e c = None" by (simp add: fromDatastore_def)
  then have "cb e = None \<longrightarrow> Read env e c = Some (Inl ErrNoCallback, cache e)"
    by (simp add: Read_def ingestionData_def)
  with Read_ds_irrelevant[OF f] show ?thesis by simp
qed

theorem read_non_advertisement_witness:
  "ds (sampleEngine (\<lambda>c. Inr (GoBytes ''obj'')) (emptyLRU 2) None 2) ''c'' = Inr (GoBytes ''obj'') \<and>
   len (GoBytes ''obj'') \<noteq> 0 \<and>
   decode sampleEnv (contents_of (GoBytes ''obj'')) = Inr (NMap [(''Entries'', NList [])]) \<and>
   \<not> isAdvertisement (NMap [(''Entries'', NList [])]) \<and>
   cb (sampleEngine (\<lambda>c. Inr (GoBytes ''obj'')) (emptyLRU 2) None 2) = None \<and>
   Read sampleEnv (sampleEngine (\<lambda>c. Inr (GoBytes ''obj'')) (emptyLRU 2) None 2) ''c''
     = Read sampleEnv
         (sampleEngine ((\<lambda>c. Inr (GoBytes ''obj''))(''c'' := Inl ErrNotFound)) (emptyLRU 2) None 2) ''c'' \<and>
   Read sampleEnv (sampleEngine (\<lambda>c. Inr (GoBytes ''obj'')) (emptyLRU 2) None 2) ''c''
     = Some (Inl ErrNoCallback, emptyLRU 2)"
proof -
  let ?e = "sampleEngine (\<lambda>c. Inr (GoBytes ''obj'')) (emptyLRU 2) None 2"
  have h1: "ds ?e ''c'' = Inr (GoBytes ''obj'')" by (simp add: sampleEngine_def)
  have h2: "len (GoBytes ''obj'') \<noteq> 0" by simp
  have h3: "decode sampleEnv (contents_of (GoBytes ''obj'')) = Inr (NMap [(''Entries'', NList [])])"
    by (simp add: sampleEnv_def sampleEnvWith_def sampleDecode_def)
  have h4: "\<not> isAdvertisement (NMap [(''Entries'', NList [])])" by (simp add: isAdvertisement_def)
  have h5: "cb ?e = None" by (simp add: sampleEngine_def)
  have u: "?e\<lparr>ds := (ds ?e)(''c'' := Inl ErrNotFound)\<rparr>
             = sampleEngine ((\<lambda>c. Inr (GoBytes ''obj''))(''c'' := Inl ErrNotFound)) (emptyLRU 2) None 2"
    by (simp add: sampleEngine_def)
  have c: "cache ?e = emptyLRU 2" by (simp add: sampleEngine_def)
  note t = read_non_advertisement[OF h1 h2 h3 h4]
  from t have r1: "Read sampleEnv ?e ''c''
      = Read sampleEnv (?e\<lparr>ds := (ds ?e)(''c'' := Inl ErrNotFound)\<rparr>) ''c''"
    by (rule conjunct1)
  from t h5 have r2: "Read sampleEnv ?e ''c'' = Some (Inl ErrNoCallback, emptyLRU 2)"
    unfolding c by blast
  from h1 h2 h3 h4 h5 r1[unfolded u] r2 show ?thesis by (intro conjI)
qed

text \<open>
  The claim as the specification has it fails: a stored object that is not an advertisement,
  read with no callback registered, yields \<open>ErrNoCallback\<close>, not its bytes.
\<close>

theorem read_non_advertisement_counterexample:
  "ds (sampleEngine (\<lambda>c. Inr (GoBytes ''obj'')) (emptyLRU 2) None 2) ''c'' = Inr (GoBytes ''obj'') \<and>
   decode sampleEnv ''obj'' = Inr (NMap [(''Entries'', NList [])]) \<and>
   \<not> isAdvertisement (NMap [(''Entries'', NList [])]) \<and>
   Read sampleEnv (sampleEngine (\<lambda>c. Inr (GoBytes ''obj'')) (emptyLRU 2) None 2) ''c''
     = Some (Inl ErrNoCallback, emptyLRU 2)"
  by (simp add: sampleEngine_def sampleEnv_def sampleEnvWith_def sampleDecode_def isAdvertisement_def
      Read_def fromDatastore_def ingestionData_def)



text \<open>
  C3, as amended. When \<open>n mod k \<noteq> 0\<close> it is the chunk stored last, the head, that holds
  the \<open>n mod k\<close> remaining multihashes; every chunk stored before it holds \<open>k\<close>. For
  chunk size 2 and 5 multihashes the sizes in write order are \<open>[2, 2, 1]\<close>, and the head
  reaches all three chunks through the previous links, which end in none.
\<close>

theorem generateChunks_sizes:
  assumes y: "yields (iterNext env) mhIter xs EOF"
    and k: "0 < k" "linkedChunkSize e = int k" and ok: "storesOK env (cache e)"
    and m: "length xs mod k \<noteq> 0"
  shows "\<exists>head ch tr. generateChunks env e mhIter = Some (Inr head, ch, tr) \<and>
           chunkSizes tr = replicate (length xs div k) k @ [length xs mod k] \<and>
           chained None (stores tr) \<and>
           head = Some (snd (last (stores tr)))"
proof -
  from batches_exist[OF k(1), of xs] obtain bs r where xs: "xs = concat bs @ r"
    and full: "\<forall>b\<in>set bs. length b = k" and r: "length r < k" by blast
  have len: "length xs = k * length bs + length r"
    using xs length_concat_full[OF full] by simp
  with batch_div_mod[OF k(1) r, of bs] have dm: "length xs div k = length bs" "length xs mod k = length r"
    by simp_all
  with m have rne: "r \<noteq> []" by auto
  from generateChunks_closed[OF y[unfolded xs] ok k full r] rne obtain ch tr where
    g: "generateChunks env e mhIter = Some (Inr (lastLink None (stores tr)), ch, tr)"
    and s: "stores tr = linkChunks env None (bs @ [r])" by auto
  have "map (\<lambda>p. Entries (fst p)) (stores tr) = bs @ [r]" using s by (simp add: entries_linkChunks)
  then have "map length (map (\<lambda>p. Entries (fst p)) (stores tr)) = map length bs @ [length r]" by simp
  moreover have "map length bs = replicate (length bs) k"
    using full by (induction bs) simp_all
  ultimately have sz: "map (\<lambda>p. length (Entries (fst p))) (stores tr)
             = replicate (length xs div k) k @ [length xs mod k]"
    using dm by (simp add: comp_def)
  have "stores tr \<noteq> []" using s length_linkChunks[of env None "bs @ [r]"]
    by (metis length_0_conv snoc_eq_iff_butlast)
  then have "lastLink None (stores tr) = Some (snd (last (stores tr)))" by (rule lastLink_last)
  moreover have "chained None (stores tr)" using s by (simp add: chained_linkChunks)
  ultimately show ?thesis using g sz by (simp add: chunkSizes_def)
qed

theorem generateChunks_sizes_witness:
  "yields (iterNext sampleEnv) \<lparr>offset = 0, contents = [''a'', ''b'', ''c'', ''d'', ''e'']\<rparr>
     [''a'', ''b'', ''c'', ''d'', ''e''] EOF \<and>
   (0::nat) < 2 \<and>
   linkedChunkSize (sampleEngine (\<lambda>c. Inl ErrNotFound) (emptyLRU 2) None 2) = int 2 \<and>
   storesOK sampleEnv (cache (sampleEngine (\<lambda>c. Inl ErrNotFound) (emptyLRU 2) None 2)) \<and>
   length [''a'', ''b'', ''c'', ''d'', ''e''] mod 2 \<noteq> 0 \<and>
   (\<exists>head ch tr.
      generateChunks sampleEnv (sampleEngine (\<lambda>c. Inl ErrNotFound) (emptyLRU 2) None 2)
        \<lparr>offset = 0, contents = [''a'', ''b'', ''c'', ''d'', ''e'']\<rparr> = Some (Inr head, ch, tr) \<and>
      chunkSizes tr = [2, 2, 1] \<and> chained None (stores tr) \<and>
      head = Some (snd (last (stores tr))))"
proof -
  let ?e = "sampleEngine (\<lambda>c. Inl ErrNotFound) (emptyLRU 2) None 2"
  let ?xs = "[''a'', ''b'', ''c'', ''d'', ''e'']"
  have h1: "yields (iterNext sampleEnv) \<lparr>offset = 0, contents = ?xs\<rparr> ?xs EOF"
    by (rule sample_yields)
  have h2: "(0::nat) < 2" by simp
  have h3: "linkedChunkSize ?e = int 2" by (simp add: sampleEngine_def)
  have h4: "storesOK sampleEnv (cache ?e)" by (rule sample_storesOK)
  have h5: "length ?xs mod 2 \<noteq> 0" by simp
  have d: "length ?xs div 2 = Suc (Suc 0)" and m: "length ?xs mod 2 = 1" by simp_all
  have n: "replicate (length ?xs div 2) 2 @ [length ?xs mod 2] = [2, 2, 1::nat]"
    unfolding d m by simp
  from generateChunks_sizes[OF h1 h2 h3 h4 h5] h1 h2 h3 h4 h5 show ?thesis
    unfolding n by blast
qed

text \<open>
  The claim as the specification has it fails: for chunk size 2 and 5 multihashes the sizes
  in write order are \<open>[2, 2, 1]\<close>, not \<open>[1, 2, 2]\<close>.
\<close>

theorem generateChunks_sizes_counterexample:
  "map_option (chunkSizes \<circ> snd \<circ> snd)
     (generateChunks sampleEnv (sampleEngine (\<lambda>c. Inl ErrNotFound) (emptyLRU 2) None 2)
        \<lparr>offset = 0, contents = [''a'', ''b'', ''c'', ''d'', ''e'']\<rparr>) = Some [2, 2, 1] \<and>
   map_option (chunkSizes \<circ> snd \<circ> snd)
     (generateChunks sampleEnv (sampleEngine (\<lambda>c. Inl ErrNotFound) (emptyLRU 2) None 2)
        \<lparr>offset = 0, contents = [''a'', ''b'', ''c'', ''d'', ''e'']\<rparr>) \<noteq> Some [1, 2, 2]"
proof -
  let ?e = "sampleEngine (\<lambda>c. Inl ErrNotFound) (emptyLRU 2) None 2"
  let ?it = "\<lparr>offset = 0, contents = [''a'', ''b'', ''c'', ''d'', ''e'']\<rparr>"
  let ?bs = "[[''a'', ''b''], [''c'', ''d'']]"
  have y: "yields (iterNext sampleEnv) ?it (concat ?bs @ [''e'']) EOF"
    using sample_yields[of "[''a'', ''b'', ''c'', ''d'', ''e'']"] by simp
  have k: "(0::nat) < 2" and lk: "linkedChunkSize ?e = int 2" by (simp_all add: sampleEngine_def)
  have full: "\<forall>b\<in>set ?bs. length b = 2" and r: "length [''e''] < (2::nat)" by simp_all
  from generateChunks_closed[OF y sample_storesOK k lk full r] obtain ch tr where
    g: "generateChunks sampleEnv ?e ?it = Some (Inr (lastLink None (stores tr)), ch, tr)"
    and s: "stores tr = linkChunks sampleEnv None (?bs @ [[''e'']])" by auto
  from s have "chunkSizes tr = [2, 2, 1]" by (simp add: chunkSizes_def)
  with g show ?thesis by simp
qed




text \<open>
  C5, as amended. \<open>isAdvertisement\<close> holds of a node exactly when the node is a map with a
  key \<open>Signature\<close>, whatever the value stored under it, the null node included.
\<close>

theorem isAdvertisement_iff:
  "isAdvertisement n = (\<exists>kvs v. n = NMap kvs \<and> map_of kvs ''Signature'' = Some v)"
  by (cases n) (auto simp: isAdvertisement_def)

text \<open>The claim as the specification has it fails on a map whose \<open>Signature\<close> is null.\<close>

theorem isAdvertisement_null_counterexample:
  "isAdvertisement (NMap [(''Signature'', NNull)])"
  by (simp add: isAdvertisement_def)

text \<open>
  C6. On the ingestion path with a callback registered, when the cache misses, the generator
  completes without error and the cache still misses on the second lookup, the read returns
  with \<open>ErrNotFound\<close>.
\<close>

theorem read_not_found_after_generation:
  assumes "fromDatastore env e c = None" and "cb e = Some f"
    and "cacheGet env (cache e) c = (Inl ErrNotFound, ch1)"
    and "getCidKeyMap env c = Inr key" and "f key = Inr mhIter"
    and "generateChunks env (e\<lparr>cache := ch1\<rparr>) mhIter = Some (Inr lnk, ch2, tr)"
    and "cacheGet env ch2 c = (Inl ErrNotFound, ch3)"
  shows "Read env e c = Some (Inl ErrNotFound, ch3)"
  using assms
  by (simp add: Read_def ingestionData_def getCacheEntry_def readFromCache_def)

theorem read_not_found_after_generation_witness:
  "fromDatastore sampleEnv
     (sampleEngine (\<lambda>c. Inl ErrNotFound) (emptyLRU 2) (Some (pubCallback ''ctx'' [''a''])) 2) ''zzz'' = None \<and>
   cb (sampleEngine (\<lambda>c. Inl ErrNotFound) (emptyLRU 2) (Some (pubCallback ''ctx'' [''a''])) 2)
     = Some (pubCallback ''ctx'' [''a'']) \<and>
   cacheGet sampleEnv (emptyLRU 2) ''zzz'' = (Inl ErrNotFound, emptyLRU 2) \<and>
   getCidKeyMap sampleEnv ''zzz'' = Inr ''ctx'' \<and>
   pubCallback ''ctx'' [''a''] ''ctx'' = Inr \<lparr>offset = 0, contents = [''a'']\<rparr> \<and>
   generateChunks sampleEnv
     (sampleEngine (\<lambda>c. Inl ErrNotFound) (emptyLRU 2) (Some (pubCallback ''ctx'' [''a''])) 2)
     \<lparr>offset = 0, contents = [''a'']\<rparr>
     = Some (Inr (Some ''N10a''),
             LRU \<lparr>entries = [(''N10a'', GoBytes ''N10a'')], capacity = 2\<rparr>,
             [CallStore (EntryChunk [''a''] None) ''N10a'']) \<and>
   cacheGet sampleEnv (LRU \<lparr>entries = [(''N10a'', GoBytes ''N10a'')], capacity = 2\<rparr>) ''zzz''
     = (Inl ErrNotFound, LRU \<lparr>entries = [(''N10a'', GoBytes ''N10a'')], capacity = 2\<rparr>) \<and>
   Read sampleEnv
     (sampleEngine (\<lambda>c. Inl ErrNotFound) (emptyLRU 2) (Some (pubCallback ''ctx'' [''a''])) 2) ''zzz''
     = Some (Inl ErrNotFound, LRU \<lparr>entries = [(''N10a'', GoBytes ''N10a'')], capacity = 2\<rparr>)"
proof -
  let ?e = "sampleEngine (\<lambda>c. Inl ErrNotFound) (emptyLRU 2) (Some (pubCallback ''ctx'' [''a''])) 2"
  let ?ch = "LRU \<lparr>entries = [(''N10a'', GoBytes ''N10a'')], capacity = 2\<rparr> :: (cid \<times> slice) list Cache"
  have h1: "fromDatastore sampleEnv ?e ''zzz'' = None"
    by (simp add: fromDatastore_def sampleEngine_def)
  have h2: "cb ?e = Some (pubCallback ''ctx'' [''a''])" by (simp add: sampleEngine_def)
  have h3: "cacheGet sampleEnv (cache ?e) ''zzz'' = (Inl ErrNotFound, emptyLRU 2)"
    by (simp add: cacheGet_def lruGet_def emptyLRU_def sampleEngine_def)
  have h4: "getCidKeyMap sampleEnv ''zzz'' = Inr ''ctx''" by (simp add: sampleEnv_def sampleEnvWith_def)
  have h5: "pubCallback ''ctx'' [''a''] ''ctx'' = Inr \<lparr>offset = 0, contents = [''a'']\<rparr>"
    by (simp add: pubCallback_def)
  have e: "?e\<lparr>cache := emptyLRU 2\<rparr> = ?e" by (simp add: sampleEngine_def)
  have h6: "generateChunks sampleEnv (?e\<lparr>cache := emptyLRU 2\<rparr>) \<lparr>offset = 0, contents = [''a'']\<rparr>
     = Some (Inr (Some ''N10a''), ?ch, [CallStore (EntryChunk [''a''] None) ''N10a''])"
    unfolding e by (rule sample_run_one)
  have h7: "cacheGet sampleEnv ?ch ''zzz'' = (Inl ErrNotFound, ?ch)"
    by (simp add: cacheGet_def lruGet_def)
  from read_not_found_after_generation[OF h1 h2 h3 h4 h5 h6 h7] h1 h2 h3 h4 h5 h6 h7 e
  show ?thesis by (simp add: sampleEngine_def)
qed

text \<open>
  C7. If the identifier is absent from the persistent object store and no callback is
  registered, the read fails with \<open>ErrNoCallback\<close>. Nothing is assumed of the cache, and
  the cache is left as it was: the check precedes every cache lookup and the generation.
\<close>

theorem read_no_callback:
  assumes "ds e c = Inl ErrNotFound" and "cb e = None"
  shows "Read env e c = Some (Inl ErrNoCallback, cache e)"
  using assms by (simp add: Read_def fromDatastore_def ingestionData_def)

theorem read_no_callback_witness:
  "ds (sampleEngine (\<lambda>c. Inl ErrNotFound) (emptyLRU 2) None 2) ''c'' = Inl ErrNotFound \<and>
   cb (sampleEngine (\<lambda>c. Inl ErrNotFound) (emptyLRU 2) None 2) = None \<and>
   Read sampleEnv (sampleEngine (\<lambda>c. Inl ErrNotFound) (emptyLRU 2) None 2) ''c''
     = Some (Inl ErrNoCallback, emptyLRU 2)"
  using read_no_callback [of "sampleEngine (\<lambda>c. Inl ErrNotFound) (emptyLRU 2) None 2" "''c''" sampleEnv]
  by (simp add: sampleEngine_def)

text \<open>
  C8. When the iterator fails with an error other than \<open>EOF\<close>, the generator returns an
  error and no head link. If no store failed before, the error is the iterator's, and the
  chunks stored are those of the complete batches read so far, \<open>n div k\<close> of them, chained.
  With an LRU store (its length within its positive capacity) nothing is undone: the keys
  it had and the links of all chunks stored are keys of the cache that is left.
\<close>

theorem iterator_error_aborts:
  assumes y: "yields (iterNext env) mhIter xs err" and ne: "err \<noteq> EOF"
  shows "\<exists>err' ch tr. generateChunks env e mhIter = Some (Inl err', ch, tr) \<and>
     (0 < k \<and> linkedChunkSize e = int k \<and> storesOK env (cache e) \<longrightarrow>
        err' = err \<and> length (stores tr) = length xs div k \<and> chained None (stores tr)) \<and>
     (\<forall>ls. cache e = LRU ls \<and> Len ls \<le> Cap ls \<and> 0 < Cap ls \<longrightarrow>
        (\<exists>ls'. ch = LRU ls' \<and> fst ` set (entries ls) \<subseteq> fst ` set (entries ls') \<and>
           snd ` set (stores tr) \<subseteq> fst ` set (entries ls')))"
proof -
  have "\<exists>err' ch tr. generateChunks env e mhIter = Some (Inl err', ch, tr)"
  proof (cases "linkedChunkSize e < 0")
    case True
    then show ?thesis by (simp add: generateChunks_def)
  next
    case False
    then have "0 \<le> linkedChunkSize e" by simp
    from generateChunks_yields[OF y this] ne show ?thesis
      by (auto simp: finishGen_def split: sum.splits prod.splits)
  qed
  then obtain err' ch tr where g: "generateChunks env e mhIter = Some (Inl err', ch, tr)" by blast
  have p2: "err' = err \<and> length (stores tr) = length xs div k \<and> chained None (stores tr)"
    if k: "0 < k" and lk: "linkedChunkSize e = int k" and ok: "storesOK env (cache e)"
  proof -
    from batches_exist[OF k, of xs] obtain bs r where xs: "xs = concat bs @ r"
      and full: "\<forall>b\<in>set bs. length b = k" and r: "length r < k" by blast
    let ?st0 = "initGen (cache e)"
    have ok0: "storesOK env (e_cache ?st0)" and m0: "mhs ?st0 = []"
      using ok by (simp_all add: initGen_def)
    from feed_batches[OF ok0 m0 k full r] obtain st1 where
      f: "feed env (int k) (concat bs @ r) ?st0 = Inr st1"
      and s1: "stores (calls st1) = linkChunks env None bs"
      by (auto simp: initGen_def)
    have "0 \<le> linkedChunkSize e" using lk by simp
    from generateChunks_yields[OF y this] f ne g lk xs
    have "err' = err" and "tr = calls st1" by (simp_all add: finishGen_def)
    moreover have "length xs = k * length bs + length r"
      using xs length_concat_full[OF full] by simp
    with batch_div_mod[OF k r, of bs] have "length xs div k = length bs" by simp
    ultimately show ?thesis using s1 by (simp add: length_linkChunks chained_linkChunks)
  qed
  have p3: "\<exists>ls'. ch = LRU ls' \<and> fst ` set (entries ls) \<subseteq> fst ` set (entries ls') \<and>
           snd ` set (stores tr) \<subseteq> fst ` set (entries ls')"
    if c: "cache e = LRU ls" and le: "Len ls \<le> Cap ls" and pos: "0 < Cap ls" for ls
  proof -
    let ?K = "fst ` set (entries ls)"
    have p0: "keepInv ?K (cache e) False []" using c le pos by (simp add: keepInv_def)
    from generateChunks_inv[of "keepInv ?K" env e mhIter "Inl err'" ch tr, OF writeChunk_keepInv g p0]
    obtain st where i: "keepInv ?K (e_cache st) (resized st) (calls st)"
      and d: "(\<exists>err. Inl err' = (Inl err :: error + cid option) \<and> ch = e_cache st \<and> tr = calls st) \<or>
            (Inl err', ch, tr) = finishGen (shrinkCache st)" by blast
    from d have "ch = e_cache st \<and> tr = calls st"
      by (auto simp: finishGen_def shrinkCache_def split: if_splits Cache.splits)
    with i show ?thesis by (auto simp: keepInv_def)
  qed
  from g p2 p3 show ?thesis by blast
qed

theorem iterator_error_aborts_witness:
  "yields (iterNext (sampleEnvWith scriptNext)) ([''a'', ''b'', ''c''], ErrOther ''boom'')
     [''a'', ''b'', ''c''] (ErrOther ''boom'') \<and>
   ErrOther ''boom'' \<noteq> EOF \<and> (0::nat) < 2 \<and>
   linkedChunkSize (scriptEngine (emptyLRU 2) 2) = int 2 \<and>
   storesOK (sampleEnvWith scriptNext) (cache (scriptEngine (emptyLRU 2) 2)) \<and>
   cache (scriptEngine (emptyLRU 2) 2) = LRU \<lparr>entries = [], capacity = 2\<rparr> \<and>
   Len \<lparr>entries = [], capacity = 2\<rparr> \<le> Cap \<lparr>entries = [], capacity = 2\<rparr> \<and>
   0 < Cap \<lparr>entries = [], capacity = 2\<rparr> \<and>
   (\<exists>ls' tr.
      generateChunks (sampleEnvWith scriptNext) (scriptEngine (emptyLRU 2) 2)
        ([''a'', ''b'', ''c''], ErrOther ''boom'') = Some (Inl (ErrOther ''boom''), LRU ls', tr) \<and>
      length (stores tr) = 1 \<and> chained None (stores tr) \<and>
      snd ` set (stores tr) \<subseteq> fst ` set (entries ls'))"
proof -
  let ?env = "sampleEnvWith scriptNext"
  let ?e = "scriptEngine (emptyLRU 2) 2"
  let ?xs = "[''a'', ''b'', ''c'']"
  let ?ls = "\<lparr>entries = [], capacity = 2\<rparr> :: LRUStore"
  have h1: "yields (iterNext ?env) (?xs, ErrOther ''boom'') ?xs (ErrOther ''boom'')"
    using script_yields[of ?xs "ErrOther ''boom''"] by (simp add: sampleEnvWith_def)
  have h2: "ErrOther ''boom'' \<noteq> EOF" by simp
  have h3: "(0::nat) < 2" by simp
  have h4: "linkedChunkSize ?e = int 2" by (simp add: scriptEngine_def)
  have h5: "storesOK ?env (cache ?e)" by (rule sampleWith_storesOK)
  have h6: "cache ?e = LRU ?ls" by (simp add: scriptEngine_def emptyLRU_def)
  have h7: "Len ?ls \<le> Cap ?ls" and h8: "0 < Cap ?ls" by (simp_all add: Len_def Cap_def)
  have n: "length ?xs div 2 = (1::nat)" by simp
  from iterator_error_aborts[OF h1 h2, of ?e 2] obtain err' ch tr where
    g: "generateChunks ?env ?e (?xs, ErrOther ''boom'') = Some (Inl err', ch, tr)"
    and a: "0 < (2::nat) \<and> linkedChunkSize ?e = int 2 \<and> storesOK ?env (cache ?e) \<longrightarrow>
        err' = ErrOther ''boom'' \<and> length (stores tr) = length ?xs div 2 \<and> chained None (stores tr)"
    and b: "\<forall>ls. cache ?e = LRU ls \<and> Len ls \<le> Cap ls \<and> 0 < Cap ls \<longrightarrow>
        (\<exists>ls'. ch = LRU ls' \<and> fst ` set (entries ls) \<subseteq> fst ` set (entries ls') \<and>
           snd ` set (stores tr) \<subseteq> fst ` set (entries ls'))"
    by (elim exE conjE)
  from a h3 h4 h5 have a': "err' = ErrOther ''boom''" "length (stores tr) = 1" "chained None (stores tr)"
    unfolding n by blast+
  from b[rule_format, OF conjI[OF h6 conjI[OF h7 h8]]]
  obtain ls' where "ch = LRU ls'" "snd ` set (stores tr) \<subseteq> fst ` set (entries ls')"
    by (elim exE conjE)
  with g a' have "\<exists>ls' tr.
      generateChunks ?env ?e (?xs, ErrOther ''boom'') = Some (Inl (ErrOther ''boom''), LRU ls', tr) \<and>
      length (stores tr) = 1 \<and> chained None (stores tr) \<and>
      snd ` set (stores tr) \<subseteq> fst ` set (entries ls')" by blast
  with h1 h2 h3 h4 h5 h6 h7 h8 show ?thesis by (intro conjI)
qed

text \<open>
  C9. A datastore value of length zero is treated as an absent key; a value of length zero
  from the cache lookup that follows a generation yields \<open>ErrNotFound\<close>; and no read ever
  returns empty bytes.
\<close>

theorem read_zero_length:
  "(ds e c = Inr v \<and> len v = 0 \<longrightarrow>
      Read env e c = Read env (e\<lparr>ds := (ds e)(c := Inl ErrNotFound)\<rparr>) c) \<and>
   (fromDatastore env e c = None \<and> cb e = Some f \<and>
    getCacheEntry env (cache e) c = (Inr GoNil, ch1) \<and>
    getCidKeyMap env c = Inr key \<and> f key = Inr mhIter \<and>
    generateChunks env (e\<lparr>cache := ch1\<rparr>) mhIter = Some (Inr lnk, ch2, tr) \<and>
    cacheGet env ch2 c = (Inr w, ch3) \<and> len w = 0 \<longrightarrow>
      Read env e c = Some (Inl ErrNotFound, ch3)) \<and>
   (Read env e c = Some (Inr b, ch) \<longrightarrow> b \<noteq> [])"
proof (intro conjI impI)
  assume "ds e c = Inr v \<and> len v = 0"
  then have "fromDatastore env e c = None" by (simp add: fromDatastore_def)
  then show "Read env e c = Read env (e\<lparr>ds := (ds e)(c := Inl ErrNotFound)\<rparr>) c"
    by (rule Read_ds_irrelevant)
next
  assume "fromDatastore env e c = None \<and> cb e = Some f \<and>
    getCacheEntry env (cache e) c = (Inr GoNil, ch1) \<and>
    getCidKeyMap env c = Inr key \<and> f key = Inr mhIter \<and>
    generateChunks env (e\<lparr>cache := ch1\<rparr>) mhIter = Some (Inr lnk, ch2, tr) \<and>
    cacheGet env ch2 c = (Inr w, ch3) \<and> len w = 0"
  then show "Read env e c = Some (Inl ErrNotFound, ch3)"
    by (simp add: Read_def ingestionData_def getCacheEntry_def readFromCache_def)
next
  assume "Read env e c = Some (Inr b, ch)"
  then show "b \<noteq> []" by (rule Read_nonempty)
qed

theorem read_zero_length_witness:
  "ds (sampleEngine (\<lambda>c. Inr (GoBytes [])) (LRU \<lparr>entries = [(''zzz'', GoNil)], capacity = 2\<rparr>)
         (Some (pubCallback ''ctx'' [''a''])) 2) ''zzz'' = Inr (GoBytes []) \<and>
   len (GoBytes []) = 0 \<and>
   Read sampleEnv
     (sampleEngine (\<lambda>c. Inr (GoBytes [])) (LRU \<lparr>entries = [(''zzz'', GoNil)], capacity = 2\<rparr>)
         (Some (pubCallback ''ctx'' [''a''])) 2) ''zzz''
     = Read sampleEnv
         (sampleEngine ((\<lambda>c. Inr (GoBytes []))(''zzz'' := Inl ErrNotFound))
            (LRU \<lparr>entries = [(''zzz'', GoNil)], capacity = 2\<rparr>)
            (Some (pubCallback ''ctx'' [''a''])) 2) ''zzz'' \<and>
   fromDatastore sampleEnv
     (sampleEngine (\<lambda>c. Inr (GoBytes [])) (LRU \<lparr>entries = [(''zzz'', GoNil)], capacity = 2\<rparr>)
         (Some (pubCallback ''ctx'' [''a''])) 2) ''zzz'' = None \<and>
   getCacheEntry sampleEnv (LRU \<lparr>entries = [(''zzz'', GoNil)], capacity = 2\<rparr>) ''zzz''
     = (Inr GoNil, LRU \<lparr>entries = [(''zzz'', GoNil)], capacity = 2\<rparr>) \<and>
   generateChunks sampleEnv
     (sampleEngine (\<lambda>c. Inr (GoBytes [])) (LRU \<lparr>entries = [(''zzz'', GoNil)], capacity = 2\<rparr>)
         (Some (pubCallback ''ctx'' [''a''])) 2) \<lparr>offset = 0, contents = [''a'']\<rparr>
     = Some (Inr (Some ''N10a''),
             LRU \<lparr>entries = [(''N10a'', GoBytes ''N10a''), (''zzz'', GoNil)], capacity = 2\<rparr>,
             [CallStore (EntryChunk [''a''] None) ''N10a'']) \<and>
   cacheGet sampleEnv
     (LRU \<lparr>entries = [(''N10a'', GoBytes ''N10a''), (''zzz'', GoNil)], capacity = 2\<rparr>) ''zzz''
     = (Inr GoNil, LRU \<lparr>entries = [(''zzz'', GoNil), (''N10a'', GoBytes ''N10a'')], capacity = 2\<rparr>) \<and>
   Read sampleEnv
     (sampleEngine (\<lambda>c. Inr (GoBytes [])) (LRU \<lparr>entries = [(''zzz'', GoNil)], capacity = 2\<rparr>)
         (Some (pubCallback ''ctx'' [''a''])) 2) ''zzz''
     = Some (Inl ErrNotFound,
             LRU \<lparr>entries = [(''zzz'', GoNil), (''N10a'', GoBytes ''N10a'')], capacity = 2\<rparr>) \<and>
   Read sampleEnv (sampleEngine (\<lambda>c. Inr (GoBytes ''ad'')) (emptyLRU 2) None 2) ''c''
     = Some (Inr ''ad'', emptyLRU 2) \<and>
   ''ad'' \<noteq> []"
proof -
  let ?c0 = "LRU \<lparr>entries = [(''zzz'', GoNil)], capacity = 2\<rparr> :: (cid \<times> slice) list Cache"
  let ?c2 = "LRU \<lparr>entries = [(''N10a'', GoBytes ''N10a''), (''zzz'', GoNil)], capacity = 2\<rparr>
               :: (cid \<times> slice) list Cache"
  let ?c3 = "LRU \<lparr>entries = [(''zzz'', GoNil), (''N10a'', GoBytes ''N10a'')], capacity = 2\<rparr>
               :: (cid \<times> slice) list Cache"
  let ?f = "pubCallback ''ctx'' [''a'']"
  let ?e = "sampleEngine (\<lambda>c. Inr (GoBytes [])) ?c0 (Some ?f) 2"
  let ?it = "\<lparr>offset = 0, contents = [''a'']\<rparr>"
  have a1: "ds ?e ''zzz'' = Inr (GoBytes []) \<and> len (GoBytes []) = 0" by (simp add: sampleEngine_def)
  have u: "?e\<lparr>ds := (ds ?e)(''zzz'' := Inl ErrNotFound)\<rparr>
             = sampleEngine ((\<lambda>c. Inr (GoBytes []))(''zzz'' := Inl ErrNotFound)) ?c0 (Some ?f) 2"
    by (simp add: sampleEngine_def)
  have b1: "fromDatastore sampleEnv ?e ''zzz'' = None" by (simp add: fromDatastore_def sampleEngine_def)
  have b2: "cb ?e = Some ?f" by (simp add: sampleEngine_def)
  have b3: "getCacheEntry sampleEnv (cache ?e) ''zzz'' = (Inr GoNil, ?c0)"
    by (simp add: getCacheEntry_def cacheGet_def lruGet_def sampleEngine_def)
  have b4: "getCidKeyMap sampleEnv ''zzz'' = Inr ''ctx''" by (simp add: sampleEnv_def sampleEnvWith_def)
  have b5: "?f ''ctx'' = Inr ?it" by (simp add: pubCallback_def)
  have e: "?e\<lparr>cache := ?c0\<rparr> = ?e" by (simp add: sampleEngine_def)
  have b6: "generateChunks sampleEnv (?e\<lparr>cache := ?c0\<rparr>) ?it
              = Some (Inr (Some ''N10a''), ?c2, [CallStore (EntryChunk [''a''] None) ''N10a''])"
    unfolding e by (rule sample_run_one_nil)
  have b7: "cacheGet sampleEnv ?c2 ''zzz'' = (Inr GoNil, ?c3)"
    by (simp add: cacheGet_def lruGet_def)
  have b8: "len GoNil = 0" by simp
  have c1: "Read sampleEnv (sampleEngine (\<lambda>c. Inr (GoBytes ''ad'')) (emptyLRU 2) None 2) ''c''
     = Some (Inr ''ad'', emptyLRU 2)"
    by (simp add: Read_def fromDatastore_def sample_defs sampleDecode_def isAdvertisement_def)
  note t1 = read_zero_length[of ?e "''zzz''" "GoBytes []" sampleEnv, THEN conjunct1, rule_format, OF a1]
  note t2 = read_zero_length[of ?e "''zzz''" _ sampleEnv ?f ?c0 "''ctx''" ?it "Some ''N10a''" ?c2
      "[CallStore (EntryChunk [''a''] None) ''N10a'']" GoNil ?c3,
      THEN conjunct2, THEN conjunct1, rule_format, OF conjI[OF b1 conjI[OF b2 conjI[OF b3
        conjI[OF b4 conjI[OF b5 conjI[OF b6 conjI[OF b7 b8]]]]]]]]
  note t3 = read_zero_length[of "sampleEngine (\<lambda>c. Inr (GoBytes ''ad'')) (emptyLRU 2) None 2" "''c''" _
      sampleEnv _ _ _ _ _ _ _ _ _ "''ad''" "emptyLRU 2",
      THEN conjunct2, THEN conjunct2, rule_format, OF c1]
  from a1 t1[unfolded u] b1 b3 b6 b7 t2 c1 t3 e show ?thesis by (simp add: sampleEngine_def)
qed

text \<open>
  C10. With a cache that is not an LRU store the generator calls no resize and leaves a
  cache of the same kind, whatever the iterator and the outcome. When no store fails, the
  run stores the same chunks under the same links, and returns the same head, as the run
  with an LRU store.
\<close>

theorem resize_only_for_LRUStore:
  "(cache e = Other s \<and> generateChunks env e mhIter = Some (res, ch, tr) \<longrightarrow>
      resizes tr = [] \<and> (\<exists>s'. ch = Other s')) \<and>
   (cache e = Other s \<and> cache e' = LRU ls \<and> 0 < k \<and>
    linkedChunkSize e = int k \<and> linkedChunkSize e' = int k \<and>
    yields (iterNext env) mhIter xs EOF \<and> storesOK env (cache e) \<and> storesOK env (cache e') \<longrightarrow>
      (\<exists>head ch1 tr1 ch2 tr2.
         generateChunks env e mhIter = Some (Inr head, ch1, tr1) \<and>
         generateChunks env e' mhIter = Some (Inr head, ch2, tr2) \<and>
         stores tr1 = stores tr2))"
proof (rule conjI; rule impI)
  assume a: "cache e = Other s \<and> generateChunks env e mhIter = Some (res, ch, tr)"
  then have "cache e = Other s" and "generateChunks env e mhIter = Some (res, ch, tr)" by simp_all
  then show "resizes tr = [] \<and> (\<exists>s'. ch = Other s')" by (rule generateChunks_other)
next
  assume a: "cache e = Other s \<and> cache e' = LRU ls \<and> 0 < k \<and>
    linkedChunkSize e = int k \<and> linkedChunkSize e' = int k \<and>
    yields (iterNext env) mhIter xs EOF \<and> storesOK env (cache e) \<and> storesOK env (cache e')"
  then have "yields (iterNext env) mhIter xs EOF" "0 < k" "linkedChunkSize e = int k"
    "linkedChunkSize e' = int k" "storesOK env (cache e)" "storesOK env (cache e')" by blast+
  then show "\<exists>head ch1 tr1 ch2 tr2.
         generateChunks env e mhIter = Some (Inr head, ch1, tr1) \<and>
         generateChunks env e' mhIter = Some (Inr head, ch2, tr2) \<and>
         stores tr1 = stores tr2" by (rule generateChunks_same_stores)
qed

theorem resize_only_for_LRUStore_witness:
  "cache (sampleEngine (\<lambda>c. Inl ErrNotFound) (Other []) None 2) = Other [] \<and>
   generateChunks sampleEnv (sampleEngine (\<lambda>c. Inl ErrNotFound) (Other []) None 2)
     \<lparr>offset = 0, contents = [''a'']\<rparr>
     = Some (Inr (Some ''N10a''), Other [(''N10a'', GoBytes ''N10a'')],
             [CallStore (EntryChunk [''a''] None) ''N10a'']) \<and>
   resizes [CallStore (EntryChunk [''a''] None) ''N10a''] = [] \<and>
   cache (sampleEngine (\<lambda>c. Inl ErrNotFound) (emptyLRU 2) None 2)
     = LRU \<lparr>entries = [], capacity = 2\<rparr> \<and>
   (0::nat) < 2 \<and>
   linkedChunkSize (sampleEngine (\<lambda>c. Inl ErrNotFound) (Other []) None 2) = int 2 \<and>
   linkedChunkSize (sampleEngine (\<lambda>c. Inl ErrNotFound) (emptyLRU 2) None 2) = int 2 \<and>
   yields (iterNext sampleEnv) \<lparr>offset = 0, contents = [''a'', ''b'', ''c'', ''d'', ''e'']\<rparr>
     [''a'', ''b'', ''c'', ''d'', ''e''] EOF \<and>
   storesOK sampleEnv (cache (sampleEngine (\<lambda>c. Inl ErrNotFound) (Other []) None 2)) \<and>
   storesOK sampleEnv (cache (sampleEngine (\<lambda>c. Inl ErrNotFound) (emptyLRU 2) None 2)) \<and>
   (\<exists>head ch1 tr1 ch2 tr2.
      generateChunks sampleEnv (sampleEngine (\<lambda>c. Inl ErrNotFound) (Other []) None 2)
        \<lparr>offset = 0, contents = [''a'', ''b'', ''c'', ''d'', ''e'']\<rparr> = Some (Inr head, ch1, tr1) \<and>
      generateChunks sampleEnv (sampleEngine (\<lambda>c. Inl ErrNotFound) (emptyLRU 2) None 2)
        \<lparr>offset = 0, contents = [''a'', ''b'', ''c'', ''d'', ''e'']\<rparr> = Some (Inr head, ch2, tr2) \<and>
      stores tr1 = stores tr2)"
proof -
  let ?o = "sampleEngine (\<lambda>c. Inl ErrNotFound) (Other []) None 2"
  let ?l = "sampleEngine (\<lambda>c. Inl ErrNotFound) (emptyLRU 2) None 2"
  let ?xs = "[''a'', ''b'', ''c'', ''d'', ''e'']"
  let ?tr = "[CallStore (EntryChunk [''a''] None) ''N10a'']"
  have a1: "cache ?o = Other []" by (simp add: sampleEngine_def)
  have a2: "generateChunks sampleEnv ?o \<lparr>offset = 0, contents = [''a'']\<rparr>
     = Some (Inr (Some ''N10a''), Other [(''N10a'', GoBytes ''N10a'')], ?tr)"
    by (rule sample_run_other)
  note t1 = resize_only_for_LRUStore[of ?o "[]" sampleEnv "\<lparr>offset = 0, contents = [''a'']\<rparr>"
      "Inr (Some ''N10a'')" "Other [(''N10a'', GoBytes ''N10a'')]" ?tr,
      THEN conjunct1, rule_format, OF conjI[OF a1 a2]]
  have b1: "cache ?l = LRU \<lparr>entries = [], capacity = 2\<rparr>" by (simp add: sampleEngine_def emptyLRU_def)
  have b2: "(0::nat) < 2" by simp
  have b3: "linkedChunkSize ?o = int 2" and b4: "linkedChunkSize ?l = int 2"
    by (simp_all add: sampleEngine_def)
  have b5: "yields (iterNext sampleEnv) \<lparr>offset = 0, contents = ?xs\<rparr> ?xs EOF" by (rule sample_yields)
  have b6: "storesOK sampleEnv (cache ?o)" and b7: "storesOK sampleEnv (cache ?l)"
    by (rule sample_storesOK)+
  note t2 = resize_only_for_LRUStore[of ?o "[]" sampleEnv "\<lparr>offset = 0, contents = ?xs\<rparr>" _ _ _
      ?l "\<lparr>entries = [], capacity = 2\<rparr>" 2 ?xs,
      THEN conjunct2, rule_format,
      OF conjI[OF a1 conjI[OF b1 conjI[OF b2 conjI[OF b3 conjI[OF b4 conjI[OF b5 conjI[OF b6 b7]]]]]]]]
  from t1 have t1': "resizes ?tr = []" by (rule conjunct1)
  from a1 a2 t1' b1 b2 b3 b4 b5 b6 b7 t2 show ?thesis by (intro conjI)
qed

end
